theory Spec2Isabelle
  imports Main
begin

section \<open>JavaScript strings\<close>

text \<open>
  A JavaScript string is modelled as a \<^typ>\<open>string\<close>: the character with code \<open>n\<close> stands
  for the UTF-16 code unit \<open>n\<close>, so the texts of the model are those over U+0000 .. U+00FF.
\<close>

abbreviation LF :: char where "LF \<equiv> CHR 0x0A"
abbreviation CR :: char where "CR \<equiv> CHR 0x0D"
abbreviation TAB :: char where "TAB \<equiv> CHR 0x09"
abbreviation SQ :: char where "SQ \<equiv> CHR 0x27"
abbreviation DQ :: char where "DQ \<equiv> CHR 0x22"
abbreviation BSL :: char where "BSL \<equiv> CHR 0x5C"

text \<open>The class \<open>\s\<close> (and what \<open>trim\<close> strips): TAB, LF, VT, FF, CR, space, NBSP.\<close>

definition is_ws :: "char \<Rightarrow> bool" where
  "is_ws c = (c \<in> set [TAB, LF, CHR 0x0B, CHR 0x0C, CR, CHR '' '', CHR 0xA0])"

text \<open>The class \<open>.\<close>: everything but the line terminators.\<close>

definition is_dot :: "char \<Rightarrow> bool" where
  "is_dot c = (c \<noteq> LF \<and> c \<noteq> CR)"

definition is_lower :: "char \<Rightarrow> bool" where
  "is_lower c = (97 \<le> (of_char c :: nat) \<and> (of_char c :: nat) \<le> 122)"

definition is_upper :: "char \<Rightarrow> bool" where
  "is_upper c = (65 \<le> (of_char c :: nat) \<and> (of_char c :: nat) \<le> 90)"

definition is_digit :: "char \<Rightarrow> bool" where
  "is_digit c = (48 \<le> (of_char c :: nat) \<and> (of_char c :: nat) \<le> 57)"

text \<open>
  \<open>String.prototype.toUpperCase\<close> on the letters \<open>a-z\<close> (its only use in the program) and
  \<open>String.prototype.toLowerCase\<close> on U+0000 .. U+00FF: the two cases of a letter differ in
  the bit of weight 32.
\<close>

definition toUpperCase_az :: "char \<Rightarrow> char" where
  "toUpperCase_az c =
     (if is_lower c
      then Char (digit0 c) (digit1 c) (digit2 c) (digit3 c) (digit4 c) False (digit6 c) (digit7 c)
      else c)"

definition lower_char :: "char \<Rightarrow> char" where
  "lower_char c =
     (let n = (of_char c :: nat)
      in if (65 \<le> n \<and> n \<le> 90) \<or> (192 \<le> n \<and> n \<le> 222 \<and> n \<noteq> 215)
         then Char (digit0 c) (digit1 c) (digit2 c) (digit3 c) (digit4 c) True (digit6 c) (digit7 c)
         else c)"

definition toLowerCase :: "string \<Rightarrow> string" where
  "toLowerCase s = map lower_char s"

definition trim :: "string \<Rightarrow> string" where
  "trim s = rev (dropWhile is_ws (rev (dropWhile is_ws s)))"

text \<open>\<open>a || b\<close> on strings.\<close>

definition or_else :: "string \<Rightarrow> string \<Rightarrow> string" where
  "or_else a b = (if a \<noteq> [] then a else b)"

text \<open>\<open>Array.prototype.join\<close>.\<close>

fun join :: "string \<Rightarrow> string list \<Rightarrow> string" where
  "join sep [] = []"
| "join sep [x] = x"
| "join sep (x # y # ys) = x @ sep @ join sep (y # ys)"

text \<open>\<open>String.prototype.includes\<close>.\<close>

fun includes_str :: "string \<Rightarrow> string \<Rightarrow> bool" where
  "includes_str [] sub = (sub = [])"
| "includes_str (c # cs) sub = (take (length sub) (c # cs) = sub \<or> includes_str cs sub)"

text \<open>The decimal text of a number, as a template literal renders it.\<close>

function show_nat :: "nat \<Rightarrow> string" where
  "show_nat n =
     (if n < 10 then [''0123456789'' ! n]
      else show_nat (n div 10) @ [''0123456789'' ! (n mod 10)])"
  by pat_completeness auto
termination
  by (relation "measure id") auto

declare show_nat.simps [simp del]

section \<open>Regular expressions\<close>

text \<open>
  The regular expressions of the program are sequences of literals and of quantified
  character classes. A pattern is the list of its items; \<open>rx_at\<close> is the backtracking
  matcher at one position: a greedy quantifier takes as many characters as it can and gives
  them back one by one while the rest of the pattern fails. The result is the list of the
  captured groups and the text after the match.
\<close>

datatype rx =
    Lit string
  | LitCI string
  | One "char \<Rightarrow> bool"
  | Opt "char \<Rightarrow> bool"
  | Star "char \<Rightarrow> bool"
  | Plus "char \<Rightarrow> bool"
  | CapOne "char \<Rightarrow> bool"
  | CapStar "char \<Rightarrow> bool"
  | Eos

fun rx_at :: "rx list \<Rightarrow> string \<Rightarrow> (string list \<times> string) option" where
  "rx_at [] s = Some ([], s)"
| "rx_at (Lit l # r) s =
     (if take (length l) s = l then rx_at r (drop (length l) s) else None)"
| "rx_at (LitCI l # r) s =
     (if map lower_char (take (length l) s) = map lower_char l
      then rx_at r (drop (length l) s) else None)"
| "rx_at (Eos # r) s = (if s = [] then rx_at r s else None)"
| "rx_at (One p # r) [] = None"
| "rx_at (One p # r) (c # cs) = (if p c then rx_at r cs else None)"
| "rx_at (CapOne p # r) [] = None"
| "rx_at (CapOne p # r) (c # cs) =
     (if p c then map_option (\<lambda>(gs, rest). ([c] # gs, rest)) (rx_at r cs) else None)"
| "rx_at (Opt p # r) [] = rx_at r []"
| "rx_at (Opt p # r) (c # cs) =
     (if p c
      then (case rx_at r cs of Some m \<Rightarrow> Some m | None \<Rightarrow> rx_at r (c # cs))
      else rx_at r (c # cs))"
| "rx_at (Plus p # r) [] = None"
| "rx_at (Plus p # r) (c # cs) = (if p c then rx_at (Star p # r) cs else None)"
| "rx_at (Star p # r) [] = rx_at r []"
| "rx_at (Star p # r) (c # cs) =
     (if p c
      then (case rx_at (Star p # r) cs of Some m \<Rightarrow> Some m | None \<Rightarrow> rx_at r (c # cs))
      else rx_at r (c # cs))"
| "rx_at (CapStar p # r) [] = map_option (\<lambda>(gs, rest). ([] # gs, rest)) (rx_at r [])"
| "rx_at (CapStar p # r) (c # cs) =
     (if p c
      then (case rx_at (CapStar p # r) cs of
              Some (g # gs, rest) \<Rightarrow> Some ((c # g) # gs, rest)
            | Some ([], rest) \<Rightarrow> None \<comment> \<open>never: the group is always reported\<close>
            | None \<Rightarrow> map_option (\<lambda>(gs, rest). ([] # gs, rest)) (rx_at r (c # cs)))
      else map_option (\<lambda>(gs, rest). ([] # gs, rest)) (rx_at r (c # cs)))"

text \<open>
  The leftmost match, as \<open>RegExp.prototype.exec\<close> finds it from position 0: the text before
  the match, the groups, the matched text and the text after it.
\<close>

fun rx_search :: "rx list \<Rightarrow> string \<Rightarrow> string \<Rightarrow> (string \<times> string list \<times> string \<times> string) option" where
  "rx_search r pre [] =
     (case rx_at r [] of Some (gs, rest) \<Rightarrow> Some (pre, gs, [], rest) | None \<Rightarrow> None)"
| "rx_search r pre (c # cs) =
     (case rx_at r (c # cs) of
        Some (gs, rest) \<Rightarrow> Some (pre, gs, take (length (c # cs) - length rest) (c # cs), rest)
      | None \<Rightarrow> rx_search r (pre @ [c]) cs)"

text \<open>
  \<open>RegExp.prototype.test\<close> of a pattern that starts with \<open>^\<close> under the flag \<open>m\<close>: the match
  may start at position 0 and after every line terminator.
\<close>

fun rx_test_lines :: "rx list \<Rightarrow> bool \<Rightarrow> string \<Rightarrow> bool" where
  "rx_test_lines r bol [] = (bol \<and> rx_at r [] \<noteq> None)"
| "rx_test_lines r bol (c # cs) =
     ((bol \<and> rx_at r (c # cs) \<noteq> None) \<or> rx_test_lines r (c = LF \<or> c = CR) cs)"

text \<open>
  The replacement text of \<open>String.prototype.replace\<close> with a string as second argument
  (GetSubstitution), for a pattern without groups: \<open>$$\<close> is a dollar, \<open>$&\<close> the matched text,
  \<open>$`\<close> the text before the match, \<open>$'\<close> the text after it; any other dollar stays.
\<close>

fun getSubstitution :: "string \<Rightarrow> string \<Rightarrow> string \<Rightarrow> string \<Rightarrow> string" where
  "getSubstitution m pre post [] = []"
| "getSubstitution m pre post [c] = [c]"
| "getSubstitution m pre post (c # d # ds) =
     (if c = CHR ''$'' \<and> d = CHR ''$'' then CHR ''$'' # getSubstitution m pre post ds
      else if c = CHR ''$'' \<and> d = CHR ''&'' then m @ getSubstitution m pre post ds
      else if c = CHR ''$'' \<and> d = CHR 0x60 then pre @ getSubstitution m pre post ds
      else if c = CHR ''$'' \<and> d = SQ then post @ getSubstitution m pre post ds
      else c # getSubstitution m pre post (d # ds))"

text \<open>\<open>s.replace(re, repl)\<close> for a pattern without the flag \<open>g\<close>: the first match only.\<close>

definition replace_first :: "rx list \<Rightarrow> string \<Rightarrow> string \<Rightarrow> string" where
  "replace_first r repl s =
     (case rx_search r [] s of
        None \<Rightarrow> s
      | Some (pre, gs, m, post) \<Rightarrow> pre @ getSubstitution m pre post repl @ post)"

text \<open>
  \<open>s.replace(re, f)\<close> under the flag \<open>g\<close>: every match, left to right, is replaced by \<open>f\<close> of its
  groups. The patterns of the program that carry the flag match at least one character.
\<close>

function rx_replace_all :: "rx list \<Rightarrow> (string list \<Rightarrow> string) \<Rightarrow> string \<Rightarrow> string" where
  "rx_replace_all r f [] = []"
| "rx_replace_all r f (c # cs) =
     (case rx_at r (c # cs) of
        Some (gs, rest) \<Rightarrow>
          if length rest < length (c # cs) then f gs @ rx_replace_all r f rest
          else c # rx_replace_all r f cs
      | None \<Rightarrow> c # rx_replace_all r f cs)"
  by pat_completeness auto
termination
  by (relation "measure (\<lambda>(r, f, s). length s)") auto

text \<open>
  \<open>s.split(re)\<close>: the pieces between the matches of the separator; \<open>acc\<close> is the piece being
  read. The separators of the program match at least one character and have no groups.
\<close>

function rx_split :: "rx list \<Rightarrow> string \<Rightarrow> string \<Rightarrow> string list" where
  "rx_split r acc [] = [acc]"
| "rx_split r acc (c # cs) =
     (case rx_at r (c # cs) of
        Some (gs, rest) \<Rightarrow>
          if length rest < length (c # cs) then acc # rx_split r [] rest
          else rx_split r (acc @ [c]) cs
      | None \<Rightarrow> rx_split r (acc @ [c]) cs)"
  by pat_completeness auto
termination
  by (relation "measure (\<lambda>(r, acc, s). length s)") auto

section \<open>The name sanitizer\<close>

text \<open>
  \<^verbatim>\<open>name.replace(/[^a-zA-Z0-9\-\_ ]/g, '').trim().replace(/\s+/g, '_') || 'Generated'\<close>
\<close>

definition name_char :: "char \<Rightarrow> bool" where
  "name_char c = (is_lower c \<or> is_upper c \<or> is_digit c \<or> c = CHR ''-'' \<or> c = CHR ''_'' \<or> c = CHR '' '')"

definition ident_char :: "char \<Rightarrow> bool" where
  "ident_char c = (is_upper c \<or> is_lower c \<or> is_digit c \<or> c = CHR ''_'')"

definition strip_name :: "string \<Rightarrow> string" where
  "strip_name nm =
     rx_replace_all [Plus is_ws] (\<lambda>_. ''_'')
       (trim (rx_replace_all [One (\<lambda>c. \<not> name_char c)] (\<lambda>_. []) nm))"

definition sanitizeName :: "string \<Rightarrow> string" where
  "sanitizeName nm = or_else (strip_name nm) ''Generated''"

section \<open>The block-grammar parser\<close>

record exported_section =
  title :: string
  lang :: string
  code :: string

record exported_component =
  name :: string
  sections :: "exported_section list"

text \<open>
  \<^verbatim>\<open>compRe = /^\/\/\s*=====\s*Component:\s*(.*)\s*=====\s*$/\<close> and
  \<^verbatim>\<open>secRe = /^\/\/\s*----\s*(.*)\s*\((.*)\)\s*----\s*$/\<close>
\<close>

definition compRe :: "rx list" where
  "compRe = [Lit ''//'', Star is_ws, Lit ''====='', Star is_ws, Lit ''Component:'', Star is_ws,
             CapStar is_dot, Star is_ws, Lit ''====='', Star is_ws, Eos]"

definition secRe :: "rx list" where
  "secRe = [Lit ''//'', Star is_ws, Lit ''----'', Star is_ws, CapStar is_dot, Star is_ws,
            Lit ''('', CapStar is_dot, Lit '')'', Star is_ws, Lit ''----'', Star is_ws, Eos]"

text \<open>\<open>line.match(re)\<close> of a pattern anchored with \<open>^\<close>: the groups of the match at position 0.\<close>

definition match_groups :: "rx list \<Rightarrow> string \<Rightarrow> string list option" where
  "match_groups r s = map_option fst (rx_at r s)"

text \<open>
  The scanner's variables: the components finished so far, the component in progress, and
  \<open>curSection\<close>, which in the source is a reference to one section object of the component
  in progress; here it is the position of that section in \<open>cur.sections\<close>.
\<close>

record pstate =
  comps :: "exported_component list"
  cur :: "exported_component option"
  curSection :: "nat option"

definition push_cur :: "pstate \<Rightarrow> exported_component list" where
  "push_cur st = (case cur st of Some c \<Rightarrow> comps st @ [c] | None \<Rightarrow> comps st)"

text \<open>\<^verbatim>\<open>raw.replace(/\t/g, '')\<close>\<close>

definition untab :: "string \<Rightarrow> string" where
  "untab raw = rx_replace_all [One (\<lambda>c. c = TAB)] (\<lambda>_. []) raw"

text \<open>The body of the loop \<^verbatim>\<open>for (const raw of lines)\<close>.\<close>

definition parse_line :: "pstate \<Rightarrow> string \<Rightarrow> pstate" where
  "parse_line st raw =
     (let line = untab raw
      in case match_groups compRe line of
           Some m \<Rightarrow>
             \<lparr>comps = push_cur st,
              cur = Some \<lparr>name = trim (m ! 0), sections = []\<rparr>,
              curSection = None\<rparr>
         | None \<Rightarrow>
             (case (match_groups secRe line, cur st) of
                (Some s, Some c) \<Rightarrow>
                  st\<lparr>cur := Some (c\<lparr>sections := sections c @
                          [\<lparr>title = trim (s ! 0), lang = toLowerCase (trim (s ! 1)), code = []\<rparr>]\<rparr>),
                     curSection := Some (length (sections c))\<rparr>
              | _ \<Rightarrow>
                  (case (curSection st, cur st) of
                     (Some i, Some c) \<Rightarrow>
                       st\<lparr>cur := Some (c\<lparr>sections := (sections c)
                               [i := (sections c ! i)\<lparr>code := code (sections c ! i) @ raw @ [LF]\<rparr>]\<rparr>)\<rparr>
                   | _ \<Rightarrow> st)))"

text \<open>\<^verbatim>\<open>content.split(/\r?\n/)\<close>\<close>

definition split_lines :: "string \<Rightarrow> string list" where
  "split_lines content = rx_split [Opt (\<lambda>c. c = CR), Lit [LF]] [] content"

definition parse_lines :: "string list \<Rightarrow> exported_component list" where
  "parse_lines ls = push_cur (foldl parse_line \<lparr>comps = [], cur = None, curSection = None\<rparr> ls)"

definition parseBlocks :: "string \<Rightarrow> exported_component list" where
  "parseBlocks content = parse_lines (split_lines content)"

section \<open>The synthesizer\<close>

record synthesized_file =
  filename :: string
  content :: string

definition escapeHtml :: "string \<Rightarrow> string" where
  "escapeHtml str =
     rx_replace_all [One (\<lambda>c. c = CHR ''>'')] (\<lambda>_. ''&gt;'')
       (rx_replace_all [One (\<lambda>c. c = CHR ''<'')] (\<lambda>_. ''&lt;'')
          (rx_replace_all [One (\<lambda>c. c = CHR ''&'')] (\<lambda>_. ''&amp;'') str))"

text \<open>
  The object \<open>obj\<close> of \<open>cssDeclsToJsObject\<close>: its own properties in the order of their creation.
  An assignment to an existing key keeps the key's place; an assignment of a string to
  \<open>__proto__\<close> creates no property. \<open>Object.entries\<close> lists the array-index keys first, in
  ascending order, then the other keys in the order of their creation.
\<close>

type_synonym obj = "(string \<times> string) list"

definition obj_set :: "obj \<Rightarrow> string \<Rightarrow> string \<Rightarrow> obj" where
  "obj_set ob k v =
     (if k = ''__proto__'' then ob
      else if k \<in> fst ` set ob then map (\<lambda>(k', v'). if k' = k then (k', v) else (k', v')) ob
      else ob @ [(k, v)])"

definition nat_of_digits :: "string \<Rightarrow> nat" where
  "nat_of_digits k = foldl (\<lambda>n c. 10 * n + (of_char c - 48)) 0 k"

definition is_array_index :: "string \<Rightarrow> bool" where
  "is_array_index k =
     (k \<noteq> [] \<and> list_all is_digit k \<and> (hd k \<noteq> CHR ''0'' \<or> k = ''0'') \<and> nat_of_digits k < 4294967295)"

definition Object_entries :: "obj \<Rightarrow> (string \<times> string) list" where
  "Object_entries ob =
     sort_key (\<lambda>(k, v). nat_of_digits k) (filter (\<lambda>(k, v). is_array_index k) ob) @
     filter (\<lambda>(k, v). \<not> is_array_index k) ob"

text \<open>\<^verbatim>\<open>prop.replace(/-([a-z])/g, (_, c) => c.toUpperCase())\<close> and the separator \<^verbatim>\<open>/;\s*\n?/\<close>\<close>

definition camelCase :: "string \<Rightarrow> string" where
  "camelCase prop =
     rx_replace_all [Lit ''-'', CapOne is_lower] (\<lambda>gs. map toUpperCase_az (gs ! 0)) prop"

definition semiRe :: "rx list" where
  "semiRe = [Lit '';'', Star is_ws, Opt (\<lambda>c. c = LF)]"

text \<open>The body of the loop \<^verbatim>\<open>for (const ln of lines)\<close> of \<open>cssDeclsToJsObject\<close>.\<close>

definition add_decl :: "obj \<Rightarrow> string \<Rightarrow> obj" where
  "add_decl ob ln =
     (if CHR '':'' \<notin> set ln then ob
      else let prop = trim (takeWhile (\<lambda>c. c \<noteq> CHR '':'') ln);
               val = trim (tl (dropWhile (\<lambda>c. c \<noteq> CHR '':'') ln));
               key = camelCase prop
           in obj_set ob key val)"

definition cssDeclsToJsObject :: "string \<Rightarrow> string" where
  "cssDeclsToJsObject cssText =
     (let lines = filter (\<lambda>l. l \<noteq> [])
                    (map trim (rx_split semiRe [] cssText));
          ob = foldl add_decl [] lines;
          entries = map (\<lambda>(k, v). ''  '' @ k @ '': '' @ [SQ] @
                           rx_replace_all [One (\<lambda>c. c = SQ)] (\<lambda>_. [BSL, SQ]) v @ [SQ])
                        (Object_entries ob)
      in ''{'' @ [LF] @ join ('','' @ [LF]) entries @ [LF] @ ''}'')"

text \<open>The body of the loop \<^verbatim>\<open>for (const sec of component.sections)\<close>.\<close>

definition push_part :: "string list \<times> string list \<times> string list \<Rightarrow> exported_section \<Rightarrow>
    string list \<times> string list \<times> string list" where
  "push_part parts sec =
     (case parts of (htmlParts, cssParts, jsParts) \<Rightarrow>
        if lang sec = [] then (htmlParts, cssParts, jsParts)
        else if includes_str (lang sec) ''css'' then (htmlParts, cssParts @ [code sec], jsParts)
        else if lang sec = ''html'' \<or> lang sec = ''vue'' \<or> lang sec = ''template'' \<or>
                lang sec = ''component''
          then (htmlParts @ [code sec], cssParts, jsParts)
        else if lang sec = ''js'' \<or> lang sec = ''jsx'' \<or> lang sec = ''tsx''
          then (htmlParts, cssParts, jsParts @ [code sec])
        else (htmlParts @ [''<pre>'' @ escapeHtml (code sec) @ ''</pre>''], cssParts, jsParts))"

definition wrap_style :: "string \<Rightarrow> string" where
  "wrap_style template =
     (if includes_str template '':style'' then template
      else [LF] @ ''<div :style='' @ [DQ] @ ''inlineStyle'' @ [DQ] @ ''>'' @ [LF] @ template @
           [LF] @ ''</div>'' @ [LF])"

text \<open>\<^verbatim>\<open>/^\{[\s\S]*\}$/\<close> and \<^verbatim>\<open>/^\s*[a-zA-Z-]+\s*:/m\<close>\<close>

definition objRe :: "rx list" where
  "objRe = [Lit ''{'', Star (\<lambda>c. True), Lit ''}'', Eos]"

definition decl_char :: "char \<Rightarrow> bool" where
  "decl_char c = (is_lower c \<or> is_upper c \<or> c = CHR ''-'')"

definition declRe :: "rx list" where
  "declRe = [Star is_ws, Plus decl_char, Star is_ws, Lit '':'']"

definition nameBase :: "exported_component \<Rightarrow> nat \<Rightarrow> string" where
  "nameBase c idx =
     sanitizeName (or_else (name c) (''Component_'' @ show_nat (idx + 1)))"

definition compName :: "exported_component \<Rightarrow> nat \<Rightarrow> string" where
  "compName c idx = rx_replace_all [One (\<lambda>ch. \<not> ident_char ch)] (\<lambda>_. []) (nameBase c idx)"

text \<open>
  The three variables the script resolution of \<open>buildSFC\<close> assigns: \<open>scriptSetup\<close>, \<open>template\<close>
  and \<open>cssParts\<close>.
\<close>

definition resolve_script :: "string \<Rightarrow> string list \<Rightarrow> string list \<Rightarrow> string \<times> string \<times> string list" where
  "resolve_script template cssParts jsParts =
     (if jsParts \<noteq> [] then
        (let first = trim (hd jsParts)
         in if rx_at objRe first \<noteq> None
            then (''const inlineStyle = '' @ first @ [LF], wrap_style template, cssParts)
            else (join [LF] jsParts @ [LF], template, cssParts))
      else if cssParts \<noteq> [] then
        (let joined = join [LF] cssParts
         in if rx_test_lines declRe True joined
            then (''const inlineStyle = '' @ cssDeclsToJsObject joined @ [LF],
                  wrap_style template, [])
            else ([], template, cssParts))
      else ([], template, cssParts))"

text \<open>The pieces of the text \<open>buildSFC\<close> assembles, and \<open>buildSFC\<close> itself.\<close>

definition section_parts :: "exported_component \<Rightarrow> string list \<times> string list \<times> string list" where
  "section_parts c = foldl push_part ([], [], []) (sections c)"

definition base_template :: "string \<Rightarrow> string list \<Rightarrow> string" where
  "base_template nm htmlParts =
     (if htmlParts \<noteq> [] then join [LF] htmlParts
      else [LF] @ ''<div class='' @ [DQ] @ ''generated-root'' @ [DQ] @ ''>'' @ [LF] @
           ''  <!-- generated component: '' @ nm @ '' -->'' @ [LF] @
           ''  <div>'' @ nm @ ''</div>'' @ [LF] @ ''</div>'' @ [LF])"

definition script_block :: "string \<Rightarrow> string \<Rightarrow> string" where
  "script_block scriptSetup cname =
     (if scriptSetup \<noteq> []
      then ''<script setup>'' @ [LF] @ scriptSetup @ [LF] @ ''</script>'' @ [LF]
      else ''<script>'' @ [LF] @ ''export default { name: '' @ [SQ] @ cname @ [SQ] @ '' }'' @
           [LF] @ ''</script>'' @ [LF])"

definition style_block :: "string list \<Rightarrow> string" where
  "style_block cssParts =
     (if cssParts \<noteq> []
      then ''<style scoped>'' @ [LF] @ join [LF] cssParts @ [LF] @ ''</style>'' @ [LF]
      else [])"

definition sfc_text :: "string \<Rightarrow> string \<Rightarrow> string \<Rightarrow> string \<Rightarrow> string" where
  "sfc_text nm template script style =
     ''<!-- Generated from Figma export: '' @ nm @ '' -->'' @ [LF] @
     ''<template>'' @ [LF] @ template @ [LF] @ ''</template>'' @ [LF] @ [LF] @
     script @ [LF] @ style"

definition buildSFC :: "exported_component \<Rightarrow> nat \<Rightarrow> synthesized_file" where
  "buildSFC c idx =
     (case section_parts c of (htmlParts, cssParts, jsParts) \<Rightarrow>
        case resolve_script (base_template (name c) htmlParts) cssParts jsParts of
          (scriptSetup, template, cssParts') \<Rightarrow>
            \<lparr>filename = compName c idx @ ''.vue'',
             content = sfc_text (name c) template (script_block scriptSetup (compName c idx))
                         (style_block cssParts')\<rparr>)"

section \<open>The collision resolver\<close>

text \<open>
  The variables of \<open>writeComponentsToApp\<close>: the list \<open>files\<close> it returns, the table \<open>used\<close>, and
  the files written under the components directory (name and text, in the order of the
  calls of \<open>writeFileSync\<close>). \<open>write_component\<close> and \<open>write_all\<close> are the callback and the loop
  when every write succeeds; \<open>write_component_fs\<close> and \<open>write_all_fs\<close> below are the same with
  a \<open>writeFileSync\<close> that may throw.
\<close>

record wstate =
  files :: "string list"
  used :: "string \<rightharpoonup> nat"
  written :: "(string \<times> string) list"

text \<open>
  \<^verbatim>\<open>c.sections.find(s => ['vue', 'template', 'component'].includes(s.lang))\<close> and the test
  \<^verbatim>\<open>!tplSection || !tplSection.code || !tplSection.code.trim()\<close>
\<close>

definition tplSection :: "exported_component \<Rightarrow> exported_section option" where
  "tplSection c = find (\<lambda>s. lang s \<in> set [''vue'', ''template'', ''component'']) (sections c)"

definition skipped :: "exported_component \<Rightarrow> bool" where
  "skipped c = (case tplSection c of None \<Rightarrow> True | Some t \<Rightarrow> code t = [] \<or> trim (code t) = [])"

text \<open>
  \<^verbatim>\<open>/\.vue$/i\<close>, \<^verbatim>\<open>/export default \{\s*name:\s*'[^']*'\s*\}/\<close> and
  \<^verbatim>\<open>/<!-- Generated from Figma export: [^>]*-->/\<close>
\<close>

definition vueRe :: "rx list" where
  "vueRe = [LitCI ''.vue'', Eos]"

definition exportRe :: "rx list" where
  "exportRe = [Lit ''export default {'', Star is_ws, Lit ''name:'', Star is_ws, Lit [SQ],
               Star (\<lambda>c. c \<noteq> SQ), Lit [SQ], Star is_ws, Lit ''}'']"

definition headerRe :: "rx list" where
  "headerRe = [Lit ''<!-- Generated from Figma export: '', Star (\<lambda>c. c \<noteq> CHR ''>''), Lit ''-->'']"

text \<open>The callback of \<^verbatim>\<open>comps.forEach((c, i) => ...)\<close>.\<close>

definition write_component :: "wstate \<Rightarrow> exported_component \<times> nat \<Rightarrow> wstate" where
  "write_component st ci =
     (case ci of (c, i) \<Rightarrow>
        if skipped c then st
        else
          let sfc = buildSFC c i;
              base = replace_first vueRe [] (filename sfc)
          in case used st base of
               Some n \<Rightarrow>
                 let count = n + 1;
                     newBase = base @ ''_'' @ show_nat count;
                     content1 = replace_first exportRe
                                  (''export default { name: '' @ [SQ] @ newBase @ [SQ] @ '' }'')
                                  (content sfc);
                     content2 = replace_first headerRe
                                  (''<!-- Generated from Figma export: '' @ name c @ '' -->'')
                                  content1
                 in \<lparr>files = files st @ [newBase @ ''.vue''],
                     used = (used st)(base \<mapsto> count),
                     written = written st @ [(newBase @ ''.vue'', content2)]\<rparr>
             | None \<Rightarrow>
                 \<lparr>files = files st @ [filename sfc],
                  used = (used st)(base \<mapsto> 1),
                  written = written st @ [(filename sfc, content sfc)]\<rparr>)"

definition write_all :: "exported_component list \<Rightarrow> wstate" where
  "write_all cs =
     foldl write_component \<lparr>files = [], used = Map.empty, written = []\<rparr>
       (zip cs [0 ..< length cs])"

definition writeComponentsToApp :: "exported_component list \<Rightarrow> string list" where
  "writeComponentsToApp cs = files (write_all cs)"

text \<open>
  The callback with a \<open>writeFileSync\<close> that throws for the file names \<open>ok\<close> rejects: the
  exception leaves the loop at once, so the result is either the files written before the
  throw (\<open>Inl\<close>) or the next state (\<open>Inr\<close>).
\<close>

definition write_component_fs ::
    "(string \<Rightarrow> bool) \<Rightarrow> wstate \<Rightarrow> exported_component \<times> nat \<Rightarrow> (string \<times> string) list + wstate" where
  "write_component_fs ok st ci =
     (case ci of (c, i) \<Rightarrow>
        if skipped c then Inr st
        else
          let sfc = buildSFC c i;
              base = replace_first vueRe [] (filename sfc)
          in case used st base of
               Some n \<Rightarrow>
                 let count = n + 1;
                     newBase = base @ ''_'' @ show_nat count;
                     content1 = replace_first exportRe
                                  (''export default { name: '' @ [SQ] @ newBase @ [SQ] @ '' }'')
                                  (content sfc);
                     content2 = replace_first headerRe
                                  (''<!-- Generated from Figma export: '' @ name c @ '' -->'')
                                  content1
                 in if \<not> ok (newBase @ ''.vue'') then Inl (written st)
                    else Inr \<lparr>files = files st @ [newBase @ ''.vue''],
                              used = (used st)(base \<mapsto> count),
                              written = written st @ [(newBase @ ''.vue'', content2)]\<rparr>
             | None \<Rightarrow>
                 if \<not> ok (filename sfc) then Inl (written st)
                 else Inr \<lparr>files = files st @ [filename sfc],
                           used = (used st)(base \<mapsto> 1),
                           written = written st @ [(filename sfc, content sfc)]\<rparr>)"

fun write_all_fs ::
    "(string \<Rightarrow> bool) \<Rightarrow> wstate \<Rightarrow> (exported_component \<times> nat) list \<Rightarrow> (string \<times> string) list + wstate" where
  "write_all_fs ok st [] = Inr st"
| "write_all_fs ok st (ci # rest) =
     (case write_component_fs ok st ci of
        Inl w \<Rightarrow> Inl w
      | Inr st' \<Rightarrow> write_all_fs ok st' rest)"

section \<open>The command\<close>

text \<open>
  What \<open>main\<close> meets in the file system: the input file (missing, present but not readable,
  or readable with its text), whether the target application exists, whether \<open>safeMkdir\<close>
  succeeds, which component files \<open>writeFileSync\<close> accepts, and whether the root file can be
  written. A call that fails throws; \<open>main\<close> catches nothing, and the runtime ends a process
  with an uncaught exception by printing the exception to standard error and exiting with
  code 1.
\<close>

datatype input_file = Missing | Unreadable | Readable string

record env =
  inputFile :: string
  input :: input_file
  targetApp :: string
  target_exists :: bool
  mkdir_ok :: bool
  write_ok :: "string \<Rightarrow> bool"
  root_write_ok :: bool

text \<open>
  What a run leaves: the exit code, what was printed to standard error (a line of
  \<open>console.error\<close>, or the runtime's report of an uncaught exception), the component files
  written, and whether the root file was overwritten (its text is not modelled).
\<close>

datatype err_output = Printed string | Uncaught

record run =
  exit_code :: nat
  stderr :: "err_output list"
  component_files :: "(string \<times> string) list"
  root_overwritten :: bool

definition existsSync :: "input_file \<Rightarrow> bool" where
  "existsSync f = (f \<noteq> Missing)"

text \<open>\<open>fs.readFileSync\<close>: the text, or none when it throws.\<close>

definition readFileSync :: "input_file \<Rightarrow> string option" where
  "readFileSync f = (case f of Readable text \<Rightarrow> Some text | _ \<Rightarrow> None)"

definition main :: "env \<Rightarrow> run" where
  "main e =
     (if \<not> existsSync (input e) then
        \<lparr>exit_code = 1, stderr = [Printed (''Input file not found: '' @ inputFile e)],
         component_files = [], root_overwritten = False\<rparr>
      else if \<not> target_exists e then
        \<lparr>exit_code = 1, stderr = [Printed (''Target my-vue-app not found at '' @ targetApp e)],
         component_files = [], root_overwritten = False\<rparr>
      else
        case readFileSync (input e) of
          None \<Rightarrow>
            \<lparr>exit_code = 1, stderr = [Uncaught], component_files = [], root_overwritten = False\<rparr>
        | Some text \<Rightarrow>
            let cs = parseBlocks text
            in if cs = [] then
                 \<lparr>exit_code = 1, stderr = [Printed ''No components found in input file''],
                  component_files = [], root_overwritten = False\<rparr>
               else if \<not> mkdir_ok e then
                 \<lparr>exit_code = 1, stderr = [Uncaught], component_files = [],
                  root_overwritten = False\<rparr>
               else
                 case write_all_fs (write_ok e) \<lparr>files = [], used = Map.empty, written = []\<rparr>
                        (zip cs [0 ..< length cs]) of
                   Inl w \<Rightarrow>
                     \<lparr>exit_code = 1, stderr = [Uncaught], component_files = w,
                      root_overwritten = False\<rparr>
                 | Inr st \<Rightarrow>
                     if files st = [] then
                       \<lparr>exit_code = 1,
                        stderr = [Printed ''No components with Vue template sections were generated''],
                        component_files = written st, root_overwritten = False\<rparr>
                     else if \<not> root_write_ok e then
                       \<lparr>exit_code = 1, stderr = [Uncaught], component_files = written st,
                        root_overwritten = False\<rparr>
                     else
                       \<lparr>exit_code = 0, stderr = [], component_files = written st,
                        root_overwritten = True\<rparr>)"

section \<open>The exporter\<close>

text \<open>
  What \<open>downloadAllFromFrame\<close> reads of a child of the frame: its name and id, whether
  \<open>getDesignComponent\<close> gives a component for it, and the code blocks \<open>codegen\<close> answers.
  The calls into the plugin host are taken to succeed (the function catches their
  exceptions and then downloads nothing).
\<close>

record code_block =
  b_title :: string
  b_name :: string
  b_lang :: string
  b_code :: string

record frame_child =
  ch_name :: string
  ch_id :: string
  ch_component :: bool
  ch_blocks :: "code_block list"

definition block_parts :: "code_block \<Rightarrow> string list" where
  "block_parts b =
     [''// ---- '' @ or_else (b_title b) (b_name b) @ '' ('' @ b_lang b @ '') ----'' @ [LF],
      b_code b, [LF]]"

definition child_parts :: "frame_child \<Rightarrow> string list" where
  "child_parts ch =
     (if \<not> ch_component ch then []
      else (''// ===== Component: '' @ or_else (ch_name ch) (ch_id ch) @ '' ====='' @ [LF]) #
           concat (map block_parts (ch_blocks ch)))"

text \<open>The text of the downloaded file; none when there is nothing to download.\<close>

definition downloadAllFromFrame :: "frame_child list \<Rightarrow> string option" where
  "downloadAllFromFrame children =
     (let parts = concat (map child_parts children)
      in if parts = [] then None else Some (join [LF] parts))"

section \<open>Header lines and the shape of an input\<close>

text \<open>
  The two tests of the scanner on a raw line, and what it reads from a header line.
\<close>

definition is_comp_header :: "string \<Rightarrow> bool" where
  "is_comp_header raw = (match_groups compRe (untab raw) \<noteq> None)"

definition is_sec_header :: "string \<Rightarrow> bool" where
  "is_sec_header raw = (match_groups secRe (untab raw) \<noteq> None)"

definition is_header :: "string \<Rightarrow> bool" where
  "is_header raw = (is_comp_header raw \<or> is_sec_header raw)"

definition header_name :: "string \<Rightarrow> string" where
  "header_name raw = trim (the (match_groups compRe (untab raw)) ! 0)"

definition header_title :: "string \<Rightarrow> string" where
  "header_title raw = trim (the (match_groups secRe (untab raw)) ! 0)"

definition header_lang :: "string \<Rightarrow> string" where
  "header_lang raw = toLowerCase (trim (the (match_groups secRe (untab raw)) ! 1))"

text \<open>
  The lines of an input, grouped: a component block is its header line, the lines before
  its first section header, and its sections, each a header line with its body lines.
\<close>

type_synonym sec_block = "string \<times> string list"
type_synonym comp_block = "string \<times> string list \<times> sec_block list"

definition sec_lines :: "sec_block \<Rightarrow> string list" where
  "sec_lines sb = (case sb of (sh, body) \<Rightarrow> sh # body)"

definition comp_lines :: "comp_block \<Rightarrow> string list" where
  "comp_lines cb = (case cb of (h, pre, secs) \<Rightarrow> h # pre @ concat (map sec_lines secs))"

definition sec_ok :: "sec_block \<Rightarrow> bool" where
  "sec_ok sb =
     (case sb of (sh, body) \<Rightarrow>
        is_sec_header sh \<and> \<not> is_comp_header sh \<and> list_all (\<lambda>l. \<not> is_header l) body)"

definition comp_ok :: "comp_block \<Rightarrow> bool" where
  "comp_ok cb =
     (case cb of (h, pre, secs) \<Rightarrow>
        is_comp_header h \<and> list_all (\<lambda>l. \<not> is_header l) pre \<and> list_all sec_ok secs)"

text \<open>What the claims say the scanner makes of a section block and of a component block.\<close>

definition sec_of :: "sec_block \<Rightarrow> exported_section" where
  "sec_of sb =
     (case sb of (sh, body) \<Rightarrow>
        \<lparr>title = header_title sh, lang = header_lang sh,
         code = concat (map (\<lambda>l. l @ [LF]) body)\<rparr>)"

definition comp_of :: "comp_block \<Rightarrow> exported_component" where
  "comp_of cb =
     (case cb of (h, pre, secs) \<Rightarrow> \<lparr>name = header_name h, sections = map sec_of secs\<rparr>)"

section \<open>The exported text and what the parser makes of it\<close>

text \<open>
  The label of a child and of a block as the exporter prints them, the header lines it
  prints, and the lines of a block's code when a line break follows the code.
\<close>

definition child_label :: "frame_child \<Rightarrow> string" where
  "child_label ch = or_else (ch_name ch) (ch_id ch)"

definition block_label :: "code_block \<Rightarrow> string" where
  "block_label b = or_else (b_title b) (b_name b)"

definition comp_line :: "frame_child \<Rightarrow> string" where
  "comp_line ch = ''// ===== Component: '' @ child_label ch @ '' =====''"

definition sec_line :: "code_block \<Rightarrow> string" where
  "sec_line b = ''// ---- '' @ block_label b @ '' ('' @ b_lang b @ '') ----''"

definition crlfRe :: "rx list" where
  "crlfRe = [Opt (\<lambda>c. c = CR), Lit [LF]]"

definition code_lines :: "string \<Rightarrow> string list" where
  "code_lines x = butlast (split_lines (x @ [LF]))"

text \<open>
  The children the round trip is stated for: no line break in a label or a language tag, no
  opening parenthesis in a language tag, and no line of a block's code that the scanner
  takes for a header.
\<close>

definition block_ok :: "code_block \<Rightarrow> bool" where
  "block_ok b =
     (list_all is_dot (block_label b) \<and> list_all is_dot (b_lang b) \<and> CHR ''('' \<notin> set (b_lang b) \<and>
      list_all (\<lambda>l. \<not> is_header l) (code_lines (b_code b)))"

definition child_ok :: "frame_child \<Rightarrow> bool" where
  "child_ok ch = (list_all is_dot (child_label ch) \<and> list_all block_ok (ch_blocks ch))"

text \<open>
  The section and the component the parser returns for a block and for a child: the labels
  without tabs and trimmed, the language tag in lower case, and the lines of the code
  between one empty line before and two after.
\<close>

definition section_of_block :: "code_block \<Rightarrow> exported_section" where
  "section_of_block b =
     \<lparr>title = trim (untab (block_label b)),
      lang = toLowerCase (trim (untab (b_lang b))),
      code = [LF] @ concat (map (\<lambda>l. l @ [LF]) (code_lines (b_code b))) @ [LF, LF]\<rparr>"

definition component_of_child :: "frame_child \<Rightarrow> exported_component" where
  "component_of_child ch =
     \<lparr>name = trim (untab (child_label ch)), sections = map section_of_block (ch_blocks ch)\<rparr>"

text \<open>The lines of the exported text, grouped as the parser reads them.\<close>

definition block_of :: "code_block \<Rightarrow> sec_block" where
  "block_of b = (sec_line b, [] # code_lines (b_code b) @ [[], []])"

definition blocks_of :: "frame_child \<Rightarrow> comp_block" where
  "blocks_of ch = (comp_line ch, [[]], map block_of (ch_blocks ch))"

text \<open>The ends of the two header patterns, named for the proofs.\<close>

definition comp_tail :: "rx list" where
  "comp_tail = [Star is_ws, Lit ''====='', Star is_ws, Eos]"

definition lang_tail :: "rx list" where
  "lang_tail = [Lit '')'', Star is_ws, Lit ''----'', Star is_ws, Eos]"

definition title_tail :: "rx list" where
  "title_tail = Star is_ws # Lit ''('' # CapStar is_dot # lang_tail"

section \<open>Auxiliary notions for the invariant of the collision resolver\<close>

text \<open>
  The identifiers of the components of a run that are not skipped, in order, and the file
  name that the \<open>j\<close>-th of them is given.
\<close>

definition bases :: "(exported_component \<times> nat) list \<Rightarrow> string list" where
  "bases ps = map (\<lambda>(c, i). compName c i) (filter (\<lambda>(c, i). \<not> skipped c) ps)"

definition nth_name :: "string list \<Rightarrow> nat \<Rightarrow> string" where
  "nth_name bs j =
     (if count_list (take j bs) (bs ! j) = 0 then bs ! j @ ''.vue''
      else bs ! j @ ''_'' @ show_nat (count_list (take j bs) (bs ! j) + 1) @ ''.vue'')"

section \<open>Declaration lists\<close>




section \<open>Evaluation\<close>

lemmas ev_defs =
  or_else_def strip_name_def sanitizeName_def trim_def is_ws_def name_char_def ident_char_def
  is_lower_def is_upper_def is_digit_def is_dot_def cssDeclsToJsObject_def add_decl_def
  camelCase_def semiRe_def decl_char_def
  obj_set_def Object_entries_def is_array_index_def nat_of_digits_def toUpperCase_az_def
  lower_char_def toLowerCase_def compRe_def secRe_def match_groups_def untab_def push_cur_def
  parse_line_def split_lines_def parse_lines_def parseBlocks_def escapeHtml_def push_part_def
  wrap_style_def objRe_def declRe_def nameBase_def compName_def resolve_script_def
  section_parts_def base_template_def script_block_def style_block_def sfc_text_def
  buildSFC_def tplSection_def skipped_def vueRe_def exportRe_def headerRe_def
  write_component_def write_all_def writeComponentsToApp_def main_def block_parts_def
  write_component_fs_def existsSync_def readFileSync_def
  child_parts_def downloadAllFromFrame_def replace_first_def show_nat.simps rx_split.simps

section \<open>The name sanitizer: facts\<close>


lemma rx_replace_all_One_Nil:
  "rx_replace_all [One (\<lambda>c. \<not> p c)] (\<lambda>_. []) s = filter p s"
  by (induction s) auto

lemma trim_Nil_iff: "trim s = [] \<longleftrightarrow> (\<forall>c\<in>set s. is_ws c)"
proof -
  have "(\<forall>x\<in>set (dropWhile is_ws s). is_ws x) \<longleftrightarrow> dropWhile is_ws s = []"
    using hd_dropWhile[of is_ws s] by (cases "dropWhile is_ws s") (auto dest: set_dropWhileD)
  then have "(\<forall>x\<in>set (dropWhile is_ws s). is_ws x) \<longleftrightarrow> (\<forall>c\<in>set s. is_ws c)"
    by (simp add: dropWhile_eq_Nil_conv)
  then show ?thesis
    by (simp add: trim_def dropWhile_eq_Nil_conv)
qed

lemma dropWhile_none: "\<forall>c\<in>set s. \<not> P c \<Longrightarrow> dropWhile P s = s"
  by (cases s) auto

lemma trim_no_ws: "\<forall>c\<in>set s. \<not> is_ws c \<Longrightarrow> trim s = s"
  by (simp add: trim_def dropWhile_none)

lemma rx_replace_all_Plus_no_ws:
  "\<forall>c\<in>set s. \<not> is_ws c \<Longrightarrow> rx_replace_all [Plus is_ws] f s = s"
  by (induction s) auto

lemma rx_replace_all_Plus_Nil_iff:
  "rx_replace_all [Plus p] (\<lambda>_. ''_'') s = [] \<longleftrightarrow> s = []"
  by (cases s) (auto split: option.splits)

lemma name_char_ws: "name_char c \<Longrightarrow> is_ws c \<longleftrightarrow> c = CHR '' ''"
  by (auto simp: name_char_def is_ws_def is_lower_def is_upper_def is_digit_def)

lemma strip_name_Nil_iff:
  "strip_name nm = [] \<longleftrightarrow> (\<forall>ch\<in>set nm. name_char ch \<longrightarrow> ch = CHR '' '')"
  by (auto simp: strip_name_def rx_replace_all_Plus_Nil_iff trim_Nil_iff rx_replace_all_One_Nil name_char_ws)

lemma digit_char: "n < 10 \<Longrightarrow> is_digit (''0123456789'' ! n)"
proof -
  assume "n < 10"
  then have "n \<in> {0, 1, 2, 3, 4, 5, 6, 7, 8, 9}" by auto
  then show ?thesis by (auto simp: is_digit_def)
qed

lemma show_nat_digits: "\<forall>c\<in>set (show_nat n). is_digit c"
proof (induction n rule: show_nat.induct)
  case (1 n)
  show ?case
  proof (cases "n < 10")
    case True
    then show ?thesis by (subst show_nat.simps) (simp add: digit_char)
  next
    case False
    with 1 show ?thesis by (subst show_nat.simps) (simp add: digit_char)
  qed
qed

lemma show_nat_not_Nil: "show_nat n \<noteq> []"
  by (subst show_nat.simps) simp

lemma strip_name_id:
  assumes "\<forall>c\<in>set s. name_char c \<and> c \<noteq> CHR '' ''"
  shows "strip_name s = s"
proof -
  have nows: "\<forall>c\<in>set s. \<not> is_ws c" using assms name_char_ws by blast
  have "filter name_char s = s" using assms by (simp add: filter_id_conv)
  then show ?thesis
    by (simp add: strip_name_def rx_replace_all_One_Nil trim_no_ws[OF nows] rx_replace_all_Plus_no_ws[OF nows])
qed

lemma digit_name_char: "is_digit c \<Longrightarrow> name_char c \<and> c \<noteq> CHR '' ''"
  by (auto simp: name_char_def is_digit_def)

lemma sanitize_positional:
  "sanitizeName (''Component_'' @ show_nat k) = ''Component_'' @ show_nat k"
proof -
  have "\<forall>c\<in>set (''Component_'' @ show_nat k). name_char c \<and> c \<noteq> CHR '' ''"
    using show_nat_digits[of k] digit_name_char
    by (auto simp: name_char_def is_lower_def is_upper_def)
  then have "strip_name (''Component_'' @ show_nat k) = ''Component_'' @ show_nat k"
    by (rule strip_name_id)
  then show ?thesis by (simp add: sanitizeName_def or_else_def)
qed


text \<open>
  C4 (as amended). A raw name sanitizes to the empty text exactly when it has no letter, digit,
  hyphen or underscore. For such a name the sanitizer substitutes the constant \<open>Generated\<close>,
  whatever the position of the component in the export; the positional default
  \<open>Component_<index + 1>\<close> is the base name of a component whose raw name is empty.
  (That sanitizing the same raw name twice gives the same base name holds by construction:
  \<open>sanitizeName\<close> is a function of the name alone.)
\<close>

theorem sanitizeName_empty_fallback:
  "(strip_name nm = [] \<longleftrightarrow> (\<forall>ch\<in>set nm. name_char ch \<longrightarrow> ch = CHR '' '')) \<and>
   (strip_name nm = [] \<longrightarrow>
      sanitizeName nm = ''Generated'' \<and>
      (nm \<noteq> [] \<longrightarrow> (\<forall>idx. nameBase \<lparr>name = nm, sections = ss\<rparr> idx = ''Generated''))) \<and>
   nameBase \<lparr>name = [], sections = ss\<rparr> idx = ''Component_'' @ show_nat (idx + 1)"
  using strip_name_Nil_iff[of nm] sanitize_positional[of "idx + 1"]
  by (simp add: sanitizeName_def nameBase_def or_else_def)

theorem sanitizeName_empty_fallback_witness:
  "strip_name ''!?!'' = [] \<and> sanitizeName ''!?!'' = ''Generated'' \<and>
   nameBase \<lparr>name = ''!?!'', sections = []\<rparr> 4 = ''Generated'' \<and>
   nameBase \<lparr>name = [], sections = []\<rparr> 4 = ''Component_5''"
proof -
  have h: "strip_name ''!?!'' = []" "''!?!'' \<noteq> []" "show_nat (4 + 1) = ''5''"
    by (simp_all add: ev_defs)
  from sanitizeName_empty_fallback[of "''!?!''" "[]" 4] h show ?thesis
    by simp
qed

text \<open>
  C4 as stated fails: the all-punctuation name \<open>!?!\<close> gets the base name \<open>Generated\<close> at
  position 0 and at position 7, not the positional names \<open>Component_1\<close> and \<open>Component_8\<close>.
\<close>

theorem sanitizeName_positional_counterexample:
  "nameBase \<lparr>name = ''!?!'', sections = []\<rparr> 0 = ''Generated'' \<and>
   nameBase \<lparr>name = ''!?!'', sections = []\<rparr> 7 = ''Generated'' \<and>
   nameBase \<lparr>name = ''!?!'', sections = []\<rparr> 0 \<noteq> ''Component_'' @ show_nat (0 + 1) \<and>
   nameBase \<lparr>name = ''!?!'', sections = []\<rparr> 7 \<noteq> ''Component_'' @ show_nat (7 + 1)"
  by (simp add: ev_defs)

section \<open>File names and identifiers\<close>

lemma compName_filter: "compName c idx = filter ident_char (nameBase c idx)"
  by (simp add: compName_def rx_replace_all_One_Nil)

lemma buildSFC_filename_eq: "filename (buildSFC c idx) = compName c idx @ ''.vue''"
  by (simp add: buildSFC_def split: prod.splits)

lemma set_trim: "set (trim s) \<subseteq> set s"
  by (auto simp: trim_def dest!: set_dropWhileD)

lemma push_part_plain:
  "\<not> includes_str (lang s) ''css'' \<Longrightarrow> lang s \<notin> {''js'', ''jsx'', ''tsx''} \<Longrightarrow>
   \<exists>h'. push_part (h, [], []) s = (h', [], [])"
  by (simp add: push_part_def)

lemma foldl_push_part_plain:
  "\<forall>s\<in>set ss. \<not> includes_str (lang s) ''css'' \<and> lang s \<notin> {''js'', ''jsx'', ''tsx''} \<Longrightarrow>
   \<exists>h'. foldl push_part (h, [], []) ss = (h', [], [])"
proof (induction ss arbitrary: h)
  case Nil
  then show ?case by simp
next
  case (Cons s ss)
  then obtain h1 where "push_part (h, [], []) s = (h1, [], [])"
    using push_part_plain[of s h] by auto
  with Cons show ?case by simp
qed



lemma not_ident_hyphen: "\<not> ident_char (CHR ''-'')"
  by (simp add: ident_char_def is_upper_def is_lower_def is_digit_def)

lemma not_ws_hyphen: "\<not> is_ws (CHR ''-'')"
  by (simp add: is_ws_def)

lemma name_char_hyphen_space: "name_char (CHR ''-'')" "name_char (CHR '' '')"
  by (simp_all add: name_char_def)

lemma only_one_left: "\<forall>x\<in>A. x = a \<or> x = b \<Longrightarrow> B \<subseteq> A \<Longrightarrow> b \<notin> B \<Longrightarrow> \<forall>x\<in>B. x = a"
  by blast

lemma all_eq_not: "\<forall>x\<in>A. x = a \<Longrightarrow> \<not> P a \<Longrightarrow> \<forall>x\<in>A. \<not> P x"
  by auto

lemma hyphen_name_compName:
  assumes "\<forall>ch\<in>set (name c). ch = CHR ''-'' \<or> ch = CHR '' ''"
    and "trim (name c) \<noteq> []" and "CHR '' '' \<notin> set (trim (name c))"
  shows "compName c idx = []"
proof -
  have "trim [] = []" by (simp add: trim_def)
  then have ne: "name c \<noteq> []" using assms(2) by metis
  have "\<forall>ch\<in>set (name c). name_char ch"
    using assms(1) by (auto simp: name_char_def)
  then have f: "filter name_char (name c) = name c"
    by (simp add: filter_id_conv)
  have hy: "\<forall>ch\<in>set (trim (name c)). ch = CHR ''-''"
    using assms(1) set_trim[of "name c"] assms(3) by (rule only_one_left)
  then have nows: "\<forall>ch\<in>set (trim (name c)). \<not> is_ws ch"
    using not_ws_hyphen by (rule all_eq_not)
  have "strip_name (name c) = trim (name c)"
    by (simp add: strip_name_def rx_replace_all_One_Nil f rx_replace_all_Plus_no_ws[OF nows])
  then have "nameBase c idx = trim (name c)"
    using ne assms(2) by (simp add: nameBase_def sanitizeName_def or_else_def)
  moreover have "\<forall>ch\<in>set (trim (name c)). \<not> ident_char ch"
    using hy not_ident_hyphen by (rule all_eq_not)
  then have "filter ident_char (trim (name c)) = []"
    by (simp add: filter_empty_conv)
  ultimately show ?thesis by (simp add: compName_filter)
qed



text \<open>
  C10 (as amended). The file name \<open>buildSFC\<close> returns is the strict identifier followed by
  \<open>.vue\<close>, and the identifier has only characters of \<open>[A-Za-z0-9_]\<close>. For a raw name of
  hyphens and spaces whose trimmed text has no space (hyphens, with spaces around them at
  most), the identifier is empty and the file name is \<open>.vue\<close>; if moreover no section is a
  style or script candidate, the script is the fallback with the empty name.
\<close>

theorem buildSFC_filename_identifier:
  "filename (buildSFC c idx) = compName c idx @ ''.vue'' \<and>
   (\<forall>ch\<in>set (compName c idx). ident_char ch) \<and>
   ((\<forall>ch\<in>set (name c). ch = CHR ''-'' \<or> ch = CHR '' '') \<and> trim (name c) \<noteq> [] \<and>
    CHR '' '' \<notin> set (trim (name c)) \<longrightarrow>
      compName c idx = [] \<and> filename (buildSFC c idx) = ''.vue'' \<and>
      ((\<forall>s\<in>set (sections c). \<not> includes_str (lang s) ''css'' \<and> lang s \<notin> {''js'', ''jsx'', ''tsx''}) \<longrightarrow>
         content (buildSFC c idx) =
           sfc_text (name c) (base_template (name c) (fst (section_parts c)))
             (''<script>'' @ [LF] @ ''export default { name: '' @ [SQ, SQ] @ '' }'' @ [LF] @
              ''</script>'' @ [LF]) []))"
proof (intro conjI impI)
  show "filename (buildSFC c idx) = compName c idx @ ''.vue''" by (rule buildSFC_filename_eq)
  show "\<forall>ch\<in>set (compName c idx). ident_char ch" by (simp add: compName_filter)
next
  assume h: "(\<forall>ch\<in>set (name c). ch = CHR ''-'' \<or> ch = CHR '' '') \<and> trim (name c) \<noteq> [] \<and>
    CHR '' '' \<notin> set (trim (name c))"
  show e: "compName c idx = []"
    using h by (intro hyphen_name_compName) auto
  from e show "filename (buildSFC c idx) = ''.vue''" by (simp add: buildSFC_filename_eq)
  assume p: "\<forall>s\<in>set (sections c). \<not> includes_str (lang s) ''css'' \<and> lang s \<notin> {''js'', ''jsx'', ''tsx''}"
  obtain h' where "section_parts c = (h', [], [])"
    using foldl_push_part_plain[OF p, of "[]"] by (auto simp: section_parts_def)
  then show "content (buildSFC c idx) =
           sfc_text (name c) (base_template (name c) (fst (section_parts c)))
             (''<script>'' @ [LF] @ ''export default { name: '' @ [SQ, SQ] @ '' }'' @ [LF] @
              ''</script>'' @ [LF]) []"
    using e by (simp add: buildSFC_def resolve_script_def script_block_def style_block_def)
qed


theorem buildSFC_filename_identifier_witness:
  "list_all (\<lambda>ch. ch = CHR ''-'' \<or> ch = CHR '' '') '' --- '' \<and> trim '' --- '' \<noteq> [] \<and>
   CHR '' '' \<notin> set (trim '' --- '') \<and>
   filename (buildSFC \<lparr>name = '' --- '', sections = []\<rparr> 3) = ''.vue'' \<and>
   list_all ident_char (compName \<lparr>name = '' --- '', sections = []\<rparr> 3) \<and>
   content (buildSFC \<lparr>name = '' --- '', sections = []\<rparr> 3) =
     sfc_text '' --- '' (base_template '' --- '' [])
       (''<script>'' @ [LF] @ ''export default { name: '' @ [SQ, SQ] @ '' }'' @ [LF] @
        ''</script>'' @ [LF]) []"
proof -
  have h: "(\<forall>ch\<in>set '' --- ''. ch = CHR ''-'' \<or> ch = CHR '' '') \<and> trim '' --- '' \<noteq> [] \<and>
    CHR '' '' \<notin> set (trim '' --- '')"
    by (simp add: trim_def is_ws_def)
  have p: "section_parts \<lparr>name = '' --- '', sections = []\<rparr> = ([], [], [])"
    by (simp add: section_parts_def)
  from buildSFC_filename_identifier[of "\<lparr>name = '' --- '', sections = []\<rparr>" 3] h p
  show ?thesis by (simp add: list_all_iff)
qed

text \<open>
  C10 as stated fails at its own example: for the raw name \<open>- -\<close> the inner space becomes an
  underscore, so the identifier is \<open>_\<close> and the file name \<open>_.vue\<close>.
\<close>

theorem buildSFC_hyphen_space_counterexample:
  "compName \<lparr>name = ''- -'', sections = []\<rparr> 0 = ''_'' \<and>
   filename (buildSFC \<lparr>name = ''- -'', sections = []\<rparr> 0) = ''_.vue'' \<and>
   filename (buildSFC \<lparr>name = ''- -'', sections = []\<rparr> 0) \<noteq> ''.vue''"
  by (simp add: ev_defs)

section \<open>Which components are written\<close>

lemma trim_Nil: "trim [] = []"
  by (simp add: trim_def)

lemma skipped_iff:
  "skipped c \<longleftrightarrow>
   \<not> (\<exists>t. find (\<lambda>s. lang s \<in> {''vue'', ''template'', ''component''}) (sections c) = Some t \<and>
           trim (code t) \<noteq> [])"
  using trim_Nil by (auto simp: skipped_def tplSection_def split: option.splits)

lemma write_component_skipped: "skipped c \<Longrightarrow> write_component st (c, i) = st"
  by (simp add: write_component_def)

lemma write_component_files:
  "\<not> skipped c \<Longrightarrow> \<exists>f. files (write_component st (c, i)) = files st @ [f]"
  by (simp add: write_component_def Let_def split: option.splits)

lemma write_component_written:
  "\<not> skipped c \<Longrightarrow> \<exists>f. written (write_component st (c, i)) = written st @ [f]"
  by (simp add: write_component_def Let_def split: option.splits)

lemma write_component_names:
  "map fst (written st) = files st \<Longrightarrow>
   map fst (written (write_component st ci)) = files (write_component st ci)"
  by (cases ci) (simp add: write_component_def Let_def split: option.splits)

lemma foldl_write_names:
  "map fst (written st) = files st \<Longrightarrow>
   map fst (written (foldl write_component st ps)) = files (foldl write_component st ps)"
  by (induction ps arbitrary: st) (simp_all add: write_component_names)

lemma foldl_write_length:
  "length (files (foldl write_component st ps)) =
   length (files st) + length (filter (\<lambda>ci. \<not> skipped (fst ci)) ps)"
proof (induction ps arbitrary: st)
  case Nil
  then show ?case by simp
next
  case (Cons ci ps)
  obtain c i where ci: "ci = (c, i)" by (cases ci)
  show ?case
  proof (cases "skipped c")
    case True
    then show ?thesis using Cons ci by (simp add: write_component_skipped)
  next
    case False
    then obtain f where "files (write_component st (c, i)) = files st @ [f]"
      using write_component_files by blast
    then show ?thesis using Cons ci False by simp
  qed
qed

lemma filter_zip_fst:
  "length xs = length ys \<Longrightarrow>
   length (filter (\<lambda>ci. P (fst ci)) (zip xs ys)) = length (filter P xs)"
  by (induction xs ys rule: list_induct2) auto

lemma files_write_all_length:
  "length (files (write_all cs)) = length (filter (\<lambda>c. \<not> skipped c) cs)"
  using filter_zip_fst[of cs "[0..<length cs]" "\<lambda>c. \<not> skipped c"]
  by (simp add: write_all_def foldl_write_length)

lemma written_write_all: "map fst (written (write_all cs)) = files (write_all cs)"
  by (simp add: write_all_def foldl_write_names)

text \<open>
  C1 (as amended). The Importer writes a file for a component exactly when the first section
  of the component whose \<open>lang\<close> is \<open>vue\<close>, \<open>template\<close> or \<open>component\<close> exists and has non-blank
  code; a section tagged \<open>html\<close> does not count, although \<open>buildSFC\<close> takes it as template
  markup. The files of a run are as many as its components of that kind, and the names of
  the files written are the list \<open>writeComponentsToApp\<close> returns.
\<close>

theorem materialized_iff_first_template_section:
  "(written (write_component st (c, i)) \<noteq> written st \<longleftrightarrow>
      (\<exists>t. find (\<lambda>s. lang s \<in> {''vue'', ''template'', ''component''}) (sections c) = Some t \<and>
           trim (code t) \<noteq> [])) \<and>
   length (writeComponentsToApp cs) =
     length (filter (\<lambda>c. \<exists>t. find (\<lambda>s. lang s \<in> {''vue'', ''template'', ''component''})
                                  (sections c) = Some t \<and> trim (code t) \<noteq> []) cs) \<and>
   map fst (written (write_all cs)) = writeComponentsToApp cs"
proof (intro conjI)
  show "written (write_component st (c, i)) \<noteq> written st \<longleftrightarrow>
      (\<exists>t. find (\<lambda>s. lang s \<in> {''vue'', ''template'', ''component''}) (sections c) = Some t \<and>
           trim (code t) \<noteq> [])"
  proof (cases "skipped c")
    case True
    then show ?thesis using skipped_iff[of c] by (simp add: write_component_skipped)
  next
    case False
    then obtain f where "written (write_component st (c, i)) = written st @ [f]"
      using write_component_written by blast
    then show ?thesis using False skipped_iff[of c] by simp
  qed
  have "(\<lambda>c. \<not> skipped c) =
        (\<lambda>c. \<exists>t. find (\<lambda>s. lang s \<in> {''vue'', ''template'', ''component''}) (sections c) = Some t \<and>
           trim (code t) \<noteq> [])"
    using skipped_iff by auto
  then show "length (writeComponentsToApp cs) =
     length (filter (\<lambda>c. \<exists>t. find (\<lambda>s. lang s \<in> {''vue'', ''template'', ''component''})
                                  (sections c) = Some t \<and> trim (code t) \<noteq> []) cs)"
    using files_write_all_length[of cs] by (simp add: writeComponentsToApp_def)
  show "map fst (written (write_all cs)) = writeComponentsToApp cs"
    by (simp add: writeComponentsToApp_def written_write_all)
qed

theorem materialized_iff_first_template_section_witness:
  "length (writeComponentsToApp
     [\<lparr>name = ''A'', sections = [\<lparr>title = ''t'', lang = ''vue'', code = ''  ''\<rparr>,
                                 \<lparr>title = ''u'', lang = ''template'', code = ''<p/>''\<rparr>]\<rparr>,
      \<lparr>name = ''B'', sections = [\<lparr>title = ''t'', lang = ''html'', code = ''<p/>''\<rparr>,
                                 \<lparr>title = ''u'', lang = ''component'', code = ''<b/>''\<rparr>]\<rparr>]) = 1"
proof -
  have "filter (\<lambda>c. \<exists>t. find (\<lambda>s. lang s \<in> {''vue'', ''template'', ''component''})
                                  (sections c) = Some t \<and> trim (code t) \<noteq> [])
     [\<lparr>name = ''A'', sections = [\<lparr>title = ''t'', lang = ''vue'', code = ''  ''\<rparr>,
                                 \<lparr>title = ''u'', lang = ''template'', code = ''<p/>''\<rparr>]\<rparr>,
      \<lparr>name = ''B'', sections = [\<lparr>title = ''t'', lang = ''html'', code = ''<p/>''\<rparr>,
                                 \<lparr>title = ''u'', lang = ''component'', code = ''<b/>''\<rparr>]\<rparr>] =
     [\<lparr>name = ''B'', sections = [\<lparr>title = ''t'', lang = ''html'', code = ''<p/>''\<rparr>,
                                 \<lparr>title = ''u'', lang = ''component'', code = ''<b/>''\<rparr>]\<rparr>]"
    by (simp add: trim_def is_ws_def)
  with materialized_iff_first_template_section[of _ _ _ "[\<lparr>name = ''A'', sections = [\<lparr>title = ''t'', lang = ''vue'', code = ''  ''\<rparr>,
                                 \<lparr>title = ''u'', lang = ''template'', code = ''<p/>''\<rparr>]\<rparr>,
      \<lparr>name = ''B'', sections = [\<lparr>title = ''t'', lang = ''html'', code = ''<p/>''\<rparr>,
                                 \<lparr>title = ''u'', lang = ''component'', code = ''<b/>''\<rparr>]\<rparr>]"]
  show ?thesis by simp
qed

text \<open>
  C1 as stated fails at its own example: the input with one component whose only section is
  tagged \<open>html\<close> with body \<open><div>hi</div>\<close> parses to that component, and no file is written.
\<close>

theorem html_only_counterexample:
  "parseBlocks (''// ===== Component: Foo ====='' @ [LF] @ ''// ---- Root (html) ----'' @ [LF] @
                ''<div>hi</div>'' @ [LF]) =
     [\<lparr>name = ''Foo'', sections = [\<lparr>title = ''Root'', lang = ''html'',
                                       code = ''<div>hi</div>'' @ [LF, LF]\<rparr>]\<rparr>] \<and>
   writeComponentsToApp
     (parseBlocks (''// ===== Component: Foo ====='' @ [LF] @ ''// ---- Root (html) ----'' @ [LF] @
                   ''<div>hi</div>'' @ [LF])) = []"
  by (simp add: ev_defs)

section \<open>The collision resolver: facts\<close>

lemma lower_char_dot: "ident_char c \<Longrightarrow> lower_char c \<noteq> CHR ''.''"
  by (cases c) (auto simp: lower_char_def ident_char_def is_upper_def is_lower_def is_digit_def Let_def of_bool_def split: if_splits)

lemma rx_at_vue_ident:
  "ident_char c \<Longrightarrow> rx_at vueRe (c # s) = None"
  using lower_char_dot[of c] by (auto simp: vueRe_def lower_char_def)

lemma rx_search_vue:
  "\<forall>ch\<in>set s. ident_char ch \<Longrightarrow>
   rx_search vueRe pre (s @ ''.vue'') = Some (pre @ s, [], ''.vue'', [])"
proof (induction s arbitrary: pre)
  case Nil
  show ?case by (simp add: vueRe_def lower_char_def)
next
  case (Cons c s)
  then have "rx_at vueRe (c # s @ ''.vue'') = None"
    by (simp add: rx_at_vue_ident)
  then show ?case using Cons by simp
qed

lemma replace_first_vue:
  "\<forall>ch\<in>set s. ident_char ch \<Longrightarrow> replace_first vueRe [] (s @ ''.vue'') = s"
  using rx_search_vue[of s "[]"] by (simp add: replace_first_def)

lemma base_of_filename:
  "replace_first vueRe [] (compName c i @ ''.vue'') = compName c i"
  by (simp add: replace_first_vue compName_filter)

lemma write_component_new:
  "\<not> skipped c \<Longrightarrow> used st (compName c i) = None \<Longrightarrow>
   files (write_component st (c, i)) = files st @ [compName c i @ ''.vue''] \<and>
   used (write_component st (c, i)) = (used st)(compName c i \<mapsto> 1)"
  by (simp add: write_component_def Let_def buildSFC_filename_eq base_of_filename)

lemma write_component_dup:
  "\<not> skipped c \<Longrightarrow> used st (compName c i) = Some n \<Longrightarrow>
   files (write_component st (c, i)) =
     files st @ [compName c i @ ''_'' @ show_nat (n + 1) @ ''.vue''] \<and>
   used (write_component st (c, i)) = (used st)(compName c i \<mapsto> n + 1)"
  by (simp add: write_component_def Let_def buildSFC_filename_eq base_of_filename)

lemma nth_name_append:
  "j < length bs \<Longrightarrow> nth_name (bs @ [b]) j = nth_name bs j"
  by (simp add: nth_name_def nth_append)

lemma names_snoc:
  "map (nth_name (bs @ [b])) [0..<length (bs @ [b])] =
   map (nth_name bs) [0..<length bs] @ [nth_name (bs @ [b]) (length bs)]"
  by (simp add: nth_name_append)

lemma nth_name_last:
  "nth_name (bs @ [b]) (length bs) =
     (if count_list bs b = 0 then b @ ''.vue''
      else b @ ''_'' @ show_nat (count_list bs b + 1) @ ''.vue'')"
  by (simp add: nth_name_def)

lemma count_list_snoc: "count_list (bs @ [x]) b = count_list bs b + (if x = b then 1 else 0)"
  by (induction bs) auto

lemma write_component_step:
  assumes "\<not> skipped c"
    and "used st = (\<lambda>b. if count_list bs b = 0 then None else Some (count_list bs b))"
  shows "files (write_component st (c, i)) = files st @ [nth_name (bs @ [compName c i]) (length bs)] \<and>
         used (write_component st (c, i)) =
         (\<lambda>b. if count_list (bs @ [compName c i]) b = 0 then None
              else Some (count_list (bs @ [compName c i]) b))"
proof (cases "count_list bs (compName c i) = 0")
  case True
  then have "used st (compName c i) = None" using assms(2) by simp
  from write_component_new[OF assms(1) this] True assms(2) show ?thesis
    by (auto simp: nth_name_last count_list_snoc fun_eq_iff)
next
  case False
  then have "used st (compName c i) = Some (count_list bs (compName c i))" using assms(2) by simp
  from write_component_dup[OF assms(1) this] False assms(2) show ?thesis
    by (auto simp: nth_name_last count_list_snoc fun_eq_iff)
qed

lemma foldl_write_inv:
  "files (foldl write_component \<lparr>files = [], used = Map.empty, written = []\<rparr> ps) =
     map (nth_name (bases ps)) [0..<length (bases ps)] \<and>
   used (foldl write_component \<lparr>files = [], used = Map.empty, written = []\<rparr> ps) =
     (\<lambda>b. if count_list (bases ps) b = 0 then None else Some (count_list (bases ps) b))"
proof (induction ps rule: rev_induct)
  case Nil
  show ?case by (simp add: bases_def)
next
  case (snoc ci ps)
  obtain c i where ci: "ci = (c, i)" by (cases ci)
  let ?st = "foldl write_component \<lparr>files = [], used = Map.empty, written = []\<rparr> ps"
  show ?case
  proof (cases "skipped c")
    case True
    then have e: "bases (ps @ [ci]) = bases ps" by (simp add: bases_def ci)
    show ?thesis unfolding e using snoc True by (simp add: ci write_component_skipped)
  next
    case False
    then have b: "bases (ps @ [(c, i)]) = bases ps @ [compName c i]" by (simp add: bases_def)
    from snoc have u: "used ?st = (\<lambda>b. if count_list (bases ps) b = 0 then None
                                        else Some (count_list (bases ps) b))" by simp
    from snoc have f: "files ?st = map (nth_name (bases ps)) [0..<length (bases ps)]" by simp
    note step = write_component_step[OF False u, of i]
    show ?thesis
      unfolding ci b names_snoc foldl_append foldl.simps
      by (simp only: step f)
  qed
qed

text \<open>
  C2 (as amended). Among the components that are written, the first with identifier \<open>B\<close> gets
  the file name \<open>B.vue\<close>, and the \<open>k\<close>-th one with the same identifier (\<open>k \<ge> 2\<close>) gets \<open>B_k.vue\<close>:
  the suffix sequence is \<open>_2\<close>, \<open>_3\<close>, ... starting at 2 for the second occurrence.
\<close>

theorem collision_suffix_sequence:
  "writeComponentsToApp cs =
     (let bs = map (\<lambda>(c, i). compName c i)
                 (filter (\<lambda>(c, i). \<not> skipped c) (zip cs [0..<length cs]))
      in map (\<lambda>j. if count_list (take j bs) (bs ! j) = 0 then bs ! j @ ''.vue''
                   else bs ! j @ ''_'' @ show_nat (count_list (take j bs) (bs ! j) + 1) @ ''.vue'')
           [0..<length bs])"
  using foldl_write_inv[of "zip cs [0..<length cs]"]
  by (simp add: writeComponentsToApp_def write_all_def bases_def nth_name_def[abs_def] Let_def)

theorem collision_suffix_sequence_witness:
  "writeComponentsToApp
     [\<lparr>name = ''Foo'', sections = [\<lparr>title = ''Root'', lang = ''vue'', code = ''<p/>''\<rparr>]\<rparr>,
      \<lparr>name = ''Bar'', sections = [\<lparr>title = ''Root'', lang = ''css'', code = ''<p/>''\<rparr>]\<rparr>,
      \<lparr>name = ''Foo!'', sections = [\<lparr>title = ''Root'', lang = ''vue'', code = ''<p/>''\<rparr>]\<rparr>,
      \<lparr>name = ''Foo'', sections = [\<lparr>title = ''Root'', lang = ''vue'', code = ''<p/>''\<rparr>]\<rparr>] =
     [''Foo.vue'', ''Foo_2.vue'', ''Foo_3.vue'']"
  by (subst collision_suffix_sequence) (simp add: ev_defs upt_rec)

text \<open>
  C2 as stated fails: the second of two components named \<open>Foo\<close> gets \<open>Foo_2.vue\<close>, not
  \<open>Foo_1.vue\<close>.
\<close>

theorem collision_suffix_counterexample:
  "writeComponentsToApp
     [\<lparr>name = ''Foo'', sections = [\<lparr>title = ''Root'', lang = ''vue'', code = ''<p/>''\<rparr>]\<rparr>,
      \<lparr>name = ''Foo'', sections = [\<lparr>title = ''Root'', lang = ''vue'', code = ''<p/>''\<rparr>]\<rparr>] =
     [''Foo.vue'', ''Foo_2.vue'']"
  by (simp add: ev_defs)

text \<open>
  C3. Two components named \<open>Foo\<close>: the second file is \<open>Foo_2.vue\<close> and its default export is
  renamed to \<open>Foo_2\<close>, but its header comment still reads \<open>Foo\<close>: the replacement text of the
  header is built from \<open>c.name\<close>, not from the suffixed name.
\<close>

theorem header_comment_not_renamed:
  "written (write_all
     [\<lparr>name = ''Foo'', sections = [\<lparr>title = ''Root'', lang = ''vue'', code = ''<p/>''\<rparr>]\<rparr>,
      \<lparr>name = ''Foo'', sections = [\<lparr>title = ''Root'', lang = ''vue'', code = ''<p/>''\<rparr>]\<rparr>]) =
     [(''Foo.vue'',
       ''<!-- Generated from Figma export: Foo -->'' @ [LF] @ ''<template>'' @ [LF] @ ''<p/>'' @ [LF] @
       ''</template>'' @ [LF, LF] @ ''<script>'' @ [LF] @ ''export default { name: '' @ [SQ] @
       ''Foo'' @ [SQ] @ '' }'' @ [LF] @ ''</script>'' @ [LF, LF]),
      (''Foo_2.vue'',
       ''<!-- Generated from Figma export: Foo -->'' @ [LF] @ ''<template>'' @ [LF] @ ''<p/>'' @ [LF] @
       ''</template>'' @ [LF, LF] @ ''<script>'' @ [LF] @ ''export default { name: '' @ [SQ] @
       ''Foo_2'' @ [SQ] @ '' }'' @ [LF] @ ''</script>'' @ [LF, LF])]"
  by (simp add: ev_defs)

section \<open>Script resolution\<close>

lemma rx_at_star_any:
  "rx_at [Star (\<lambda>c. True), Lit ''}'', Eos] s \<noteq> None \<longleftrightarrow> s \<noteq> [] \<and> last s = CHR ''}''"
proof (induction s)
  case Nil
  show ?case by simp
next
  case (Cons c s)
  show ?case
  proof (cases "rx_at [Star (\<lambda>c. True), Lit ''}'', Eos] s")
    case None
    with Cons have "s = [] \<or> last s \<noteq> CHR ''}''" by simp
    with None show ?thesis by (cases s) auto
  next
    case (Some m)
    with Cons show ?thesis by simp
  qed
qed

lemma rx_at_objRe:
  "rx_at objRe s \<noteq> None \<longleftrightarrow> 2 \<le> length s \<and> hd s = CHR ''{'' \<and> last s = CHR ''}''"
proof (cases s)
  case Nil
  then show ?thesis by (simp add: objRe_def)
next
  case (Cons c t)
  then show ?thesis
    using rx_at_star_any[of t] by (cases t) (auto simp: objRe_def)
qed

lemma push_part_parts:
  "\<exists>h'. push_part (h, cs, js) s =
     (h', cs @ map code (filter (\<lambda>s. includes_str (lang s) ''css'') [s]),
      js @ map code (filter (\<lambda>s. lang s = ''js'' \<or> lang s = ''jsx'' \<or> lang s = ''tsx'') [s]))"
  by (auto simp: push_part_def)

lemma foldl_push_part_parts:
  "\<exists>h'. foldl push_part (h, cs, js) ss =
     (h', cs @ map code (filter (\<lambda>s. includes_str (lang s) ''css'') ss),
      js @ map code (filter (\<lambda>s. lang s = ''js'' \<or> lang s = ''jsx'' \<or> lang s = ''tsx'') ss))"
proof (induction ss arbitrary: h cs js)
  case Nil
  show ?case by simp
next
  case (Cons s ss)
  obtain h1 where 1: "push_part (h, cs, js) s =
     (h1, cs @ map code (filter (\<lambda>s. includes_str (lang s) ''css'') [s]),
      js @ map code (filter (\<lambda>s. lang s = ''js'' \<or> lang s = ''jsx'' \<or> lang s = ''tsx'') [s]))"
    using push_part_parts by blast
  obtain h2 where "foldl push_part (push_part (h, cs, js) s) ss =
     (h2, (cs @ map code (filter (\<lambda>s. includes_str (lang s) ''css'') [s])) @
            map code (filter (\<lambda>s. includes_str (lang s) ''css'') ss),
          (js @ map code (filter (\<lambda>s. lang s = ''js'' \<or> lang s = ''jsx'' \<or> lang s = ''tsx'') [s])) @
            map code (filter (\<lambda>s. lang s = ''js'' \<or> lang s = ''jsx'' \<or> lang s = ''tsx'') ss))"
    unfolding 1 using Cons by blast
  then show ?case by auto
qed

lemma section_parts_eq:
  "section_parts c =
     (fst (section_parts c),
      map code (filter (\<lambda>s. includes_str (lang s) ''css'') (sections c)),
      map code (filter (\<lambda>s. lang s = ''js'' \<or> lang s = ''jsx'' \<or> lang s = ''tsx'') (sections c)))"
  using foldl_push_part_parts[of "[]" "[]" "[]" "sections c"]
  by (auto simp: section_parts_def)





section \<open>The parser: facts\<close>

lemma parse_line_comp:
  "is_comp_header raw \<Longrightarrow>
   parse_line st raw =
     \<lparr>comps = push_cur st, cur = Some \<lparr>name = header_name raw, sections = []\<rparr>,
      curSection = None\<rparr>"
  by (auto simp: parse_line_def is_comp_header_def header_name_def Let_def split: option.splits)

lemma parse_line_sec:
  "\<not> is_comp_header raw \<Longrightarrow> is_sec_header raw \<Longrightarrow>
   parse_line \<lparr>comps = cs, cur = Some \<lparr>name = n, sections = ss\<rparr>, curSection = k\<rparr> raw =
     \<lparr>comps = cs,
      cur = Some \<lparr>name = n,
                 sections = ss @ [\<lparr>title = header_title raw, lang = header_lang raw, code = []\<rparr>]\<rparr>,
      curSection = Some (length ss)\<rparr>"
  by (auto simp: parse_line_def is_comp_header_def is_sec_header_def header_title_def
        header_lang_def Let_def split: option.splits)

lemma parse_line_body:
  "\<not> is_header raw \<Longrightarrow>
   parse_line \<lparr>comps = cs, cur = Some \<lparr>name = n, sections = ss\<rparr>, curSection = Some i\<rparr> raw =
     \<lparr>comps = cs,
      cur = Some \<lparr>name = n, sections = ss[i := (ss ! i)\<lparr>code := code (ss ! i) @ raw @ [LF]\<rparr>]\<rparr>,
      curSection = Some i\<rparr>"
  by (auto simp: parse_line_def is_header_def is_comp_header_def is_sec_header_def Let_def
           split: option.splits)

lemma parse_line_skip:
  "\<not> is_comp_header raw \<Longrightarrow> curSection st = None \<Longrightarrow> cur st = None \<or> \<not> is_sec_header raw \<Longrightarrow>
   parse_line st raw = st"
  by (auto simp: parse_line_def is_comp_header_def is_sec_header_def Let_def split: option.splits)

lemma foldl_parse_skip:
  "list_all (\<lambda>l. \<not> is_comp_header l) ls \<Longrightarrow> curSection st = None \<Longrightarrow>
   cur st = None \<or> list_all (\<lambda>l. \<not> is_sec_header l) ls \<Longrightarrow>
   foldl parse_line st ls = st"
  by (induction ls) (auto simp: parse_line_skip)

lemma foldl_parse_body:
  "list_all (\<lambda>l. \<not> is_header l) body \<Longrightarrow> i < length ss \<Longrightarrow>
   foldl parse_line \<lparr>comps = cs, cur = Some \<lparr>name = n, sections = ss\<rparr>, curSection = Some i\<rparr> body =
     \<lparr>comps = cs,
      cur = Some \<lparr>name = n,
                 sections = ss[i := (ss ! i)\<lparr>code := code (ss ! i) @ concat (map (\<lambda>l. l @ [LF]) body)\<rparr>]\<rparr>,
      curSection = Some i\<rparr>"
proof (induction body arbitrary: ss)
  case Nil
  then show ?case by simp
next
  case (Cons l body)
  from Cons.prems have nh: "\<not> is_header l" and rest: "list_all (\<lambda>l. \<not> is_header l) body" by simp_all
  let ?ss = "ss[i := (ss ! i)\<lparr>code := code (ss ! i) @ l @ [LF]\<rparr>]"
  have len: "i < length ?ss" using Cons.prems by simp
  show ?case
    using Cons.prems(2)
    by (simp add: parse_line_body[OF nh] Cons.IH[OF rest len])
qed

lemma foldl_parse_section:
  assumes "sec_ok (sh, body)"
  shows "foldl parse_line \<lparr>comps = cs, cur = Some \<lparr>name = n, sections = ss\<rparr>, curSection = k\<rparr>
           (sec_lines (sh, body)) =
         \<lparr>comps = cs, cur = Some \<lparr>name = n, sections = ss @ [sec_of (sh, body)]\<rparr>,
          curSection = Some (length ss)\<rparr>"
proof -
  from assms have a: "is_sec_header sh" "\<not> is_comp_header sh" "list_all (\<lambda>l. \<not> is_header l) body"
    by (simp_all add: sec_ok_def)
  show ?thesis
    by (simp add: sec_lines_def parse_line_sec[OF a(2) a(1)] foldl_parse_body[OF a(3)] sec_of_def)
qed

lemma foldl_parse_sections:
  "list_all sec_ok secs \<Longrightarrow>
   \<exists>k'. foldl parse_line \<lparr>comps = cs, cur = Some \<lparr>name = n, sections = ss\<rparr>, curSection = k\<rparr>
           (concat (map sec_lines secs)) =
         \<lparr>comps = cs, cur = Some \<lparr>name = n, sections = ss @ map sec_of secs\<rparr>, curSection = k'\<rparr>"
proof (induction secs arbitrary: ss k)
  case Nil
  then show ?case by simp
next
  case (Cons sb secs)
  obtain sh body where sb: "sb = (sh, body)" by (cases sb)
  from Cons.prems have ok: "sec_ok (sh, body)" and rest: "list_all sec_ok secs" by (simp_all add: sb)
  from Cons.IH[OF rest, of "ss @ [sec_of (sh, body)]" "Some (length ss)"]
  show ?case by (simp add: sb foldl_parse_section[OF ok])
qed

lemma foldl_parse_comp:
  assumes "comp_ok (h, pre, secs)"
  shows "\<exists>k'. foldl parse_line st (comp_lines (h, pre, secs)) =
           \<lparr>comps = push_cur st, cur = Some (comp_of (h, pre, secs)), curSection = k'\<rparr>"
proof -
  from assms have a: "is_comp_header h" "list_all (\<lambda>l. \<not> is_header l) pre" "list_all sec_ok secs"
    by (simp_all add: comp_ok_def)
  from a(2) have b: "list_all (\<lambda>l. \<not> is_comp_header l) pre" "list_all (\<lambda>l. \<not> is_sec_header l) pre"
    by (simp_all add: is_header_def list_all_iff)
  let ?st1 = "\<lparr>comps = push_cur st, cur = Some \<lparr>name = header_name h, sections = []\<rparr>,
      curSection = None\<rparr>"
  have 1: "foldl parse_line ?st1 pre = ?st1"
    using foldl_parse_skip[OF b(1), of ?st1] b(2) by simp
  from foldl_parse_sections[OF a(3), of "push_cur st" "header_name h" "[]" None]
  show ?thesis
    by (simp add: comp_lines_def parse_line_comp[OF a(1)] 1 comp_of_def)
qed

lemma foldl_parse_doc:
  "list_all comp_ok doc \<Longrightarrow>
   push_cur (foldl parse_line st (concat (map comp_lines doc))) = push_cur st @ map comp_of doc"
proof (induction doc arbitrary: st)
  case Nil
  then show ?case by simp
next
  case (Cons cb doc)
  obtain h pre secs where cb: "cb = (h, pre, secs)" by (cases cb)
  from Cons.prems have ok: "comp_ok (h, pre, secs)" and rest: "list_all comp_ok doc"
    by (simp_all add: cb)
  from foldl_parse_comp[OF ok, of st] obtain k' where
    1: "foldl parse_line st (comp_lines (h, pre, secs)) =
           \<lparr>comps = push_cur st, cur = Some (comp_of (h, pre, secs)), curSection = k'\<rparr>" by blast
  let ?st1 = "\<lparr>comps = push_cur st, cur = Some (comp_of (h, pre, secs)), curSection = k'\<rparr>"
  have 2: "push_cur ?st1 = push_cur st @ [comp_of (h, pre, secs)]"
    by (simp add: push_cur_def)
  have "push_cur (foldl parse_line st (concat (map comp_lines (cb # doc)))) =
        push_cur (foldl parse_line ?st1 (concat (map comp_lines doc)))"
    by (simp add: cb 1)
  also have "\<dots> = push_cur ?st1 @ map comp_of doc"
    by (rule Cons.IH[OF rest])
  finally show ?case
    by (simp add: 2 cb)
qed

lemma parse_lines_shape:
  "list_all (\<lambda>l. \<not> is_comp_header l) junk \<Longrightarrow> list_all comp_ok doc \<Longrightarrow>
   parse_lines (junk @ concat (map comp_lines doc)) = map comp_of doc"
proof -
  assume j: "list_all (\<lambda>l. \<not> is_comp_header l) junk" and d: "list_all comp_ok doc"
  let ?init = "\<lparr>comps = [], cur = None, curSection = None\<rparr>"
  have "foldl parse_line ?init junk = ?init"
    using foldl_parse_skip[OF j, of ?init] by simp
  then show ?thesis
    using foldl_parse_doc[OF d, of ?init] by (simp add: parse_lines_def push_cur_def)
qed

lemma comp_lines_snoc_sec:
  "comp_lines (h, pre, secs @ [sb]) = comp_lines (h, pre, secs) @ sec_lines sb"
  by (simp add: comp_lines_def)

lemma shape_exists:
  "\<exists>junk doc. list_all (\<lambda>l. \<not> is_comp_header l) junk \<and> list_all comp_ok doc \<and>
     ls = junk @ concat (map comp_lines doc)"
proof (induction ls rule: rev_induct)
  case Nil
  have "list_all (\<lambda>l. \<not> is_comp_header l) [] \<and> list_all comp_ok [] \<and>
     [] = [] @ concat (map comp_lines [])" by simp
  then show ?case by blast
next
  case (snoc l ls)
  then obtain junk doc where j: "list_all (\<lambda>l. \<not> is_comp_header l) junk"
    and d: "list_all comp_ok doc" and e: "ls = junk @ concat (map comp_lines doc)" by blast
  show ?case
  proof (cases "is_comp_header l")
    case True
    have "list_all comp_ok (doc @ [(l, [], [])])" using d True by (simp add: comp_ok_def)
    moreover have "ls @ [l] = junk @ concat (map comp_lines (doc @ [(l, [], [])]))"
      by (simp add: e comp_lines_def)
    ultimately show ?thesis using j by blast
  next
    case nc: False
    show ?thesis
    proof (cases doc rule: rev_cases)
      case Nil
      have "list_all (\<lambda>l. \<not> is_comp_header l) (junk @ [l])" using j nc by simp
      moreover have "ls @ [l] = (junk @ [l]) @ concat (map comp_lines doc)" by (simp add: e Nil)
      ultimately show ?thesis using d by blast
    next
      case (snoc doc0 cb)
      obtain h pre secs where cb: "cb = (h, pre, secs)" by (cases cb)
      from d snoc cb have d0: "list_all comp_ok doc0" and okc: "comp_ok (h, pre, secs)" by simp_all
      from okc have oh: "is_comp_header h" and op: "list_all (\<lambda>l. \<not> is_header l) pre"
        and os: "list_all sec_ok secs" by (simp_all add: comp_ok_def)
      have e': "ls = junk @ concat (map comp_lines doc0) @ comp_lines (h, pre, secs)"
        by (simp add: e snoc cb)
      show ?thesis
      proof (cases "is_sec_header l")
        case True
        have "sec_ok (l, [])" using True nc by (simp add: sec_ok_def)
        then have "comp_ok (h, pre, secs @ [(l, [])])" using oh op os by (simp add: comp_ok_def)
        then have "list_all comp_ok (doc0 @ [(h, pre, secs @ [(l, [])])])" using d0 by simp
        moreover have "ls @ [l] = junk @ concat (map comp_lines (doc0 @ [(h, pre, secs @ [(l, [])])]))"
          by (simp add: e' comp_lines_snoc_sec sec_lines_def)
        ultimately show ?thesis using j by blast
      next
        case ns: False
        then have nh: "\<not> is_header l" using nc by (simp add: is_header_def)
        show ?thesis
        proof (cases secs rule: rev_cases)
          case Nil
          have "comp_ok (h, pre @ [l], [])" using oh op nh by (simp add: comp_ok_def)
          then have "list_all comp_ok (doc0 @ [(h, pre @ [l], [])])" using d0 by simp
          moreover have "ls @ [l] = junk @ concat (map comp_lines (doc0 @ [(h, pre @ [l], [])]))"
            by (simp add: e' Nil comp_lines_def)
          ultimately show ?thesis using j by blast
        next
          case (snoc secs0 sb)
          obtain sh body where sb: "sb = (sh, body)" by (cases sb)
          from os snoc sb have os0: "list_all sec_ok secs0" and oks: "sec_ok (sh, body)" by simp_all
          from oks nh have "sec_ok (sh, body @ [l])" by (simp add: sec_ok_def)
          then have "comp_ok (h, pre, secs0 @ [(sh, body @ [l])])"
            using oh op os0 by (simp add: comp_ok_def)
          then have "list_all comp_ok (doc0 @ [(h, pre, secs0 @ [(sh, body @ [l])])])"
            using d0 by simp
          moreover have "ls @ [l] =
              junk @ concat (map comp_lines (doc0 @ [(h, pre, secs0 @ [(sh, body @ [l])])]))"
            by (simp add: e' snoc sb comp_lines_snoc_sec sec_lines_def)
          ultimately show ?thesis using j by blast
        qed
      qed
    qed
  qed
qed

lemma codes_of_doc:
  "map (\<lambda>c. map code (sections c)) (map comp_of doc) =
   map (\<lambda>(h, pre, secs). map (\<lambda>(sh, body). concat (map (\<lambda>l. l @ [LF]) body)) secs) doc"
  by (auto simp: comp_of_def sec_of_def split: prod.splits)

section \<open>The round trip of the interchange format\<close>


lemma capstar_take:
  "\<forall>c\<in>set w. p c \<Longrightarrow> rx_at (CapStar p # r) t = Some (g # gs, rest) \<Longrightarrow>
   rx_at (CapStar p # r) (w @ t) = Some ((w @ g) # gs, rest)"
  by (induction w) simp_all

lemma trim_ws_Cons: "is_ws c \<Longrightarrow> trim (c # s) = trim s"
  by (simp add: trim_def)

lemma trim_snoc_ws: "is_ws c \<Longrightarrow> trim (s @ [c]) = trim s"
proof (cases "\<forall>x\<in>set s. is_ws x")
  case True
  assume "is_ws c"
  with True have "trim (s @ [c]) = []" "trim s = []" by (simp_all add: trim_Nil_iff)
  then show ?thesis by simp
next
  case False
  assume c: "is_ws c"
  from False obtain x where "x \<in> set s" "\<not> is_ws x" by blast
  then have "dropWhile is_ws (s @ [c]) = dropWhile is_ws s @ [c]"
    by (rule dropWhile_append1)
  then show ?thesis using c by (simp add: trim_def)
qed

lemma is_ws_space: "is_ws (CHR '' '')" by (simp add: is_ws_def)
lemma is_dot_space: "is_dot (CHR '' '')" by (simp add: is_dot_def)

lemma comp_tail_end: "rx_at (CapStar is_dot # comp_tail) ''====='' = Some ([[]], [])"
  by (simp add: comp_tail_def is_dot_def is_ws_def)

lemma comp_name_group:
  "list_all is_dot N \<Longrightarrow>
   \<exists>g. rx_at (Star is_ws # CapStar is_dot # comp_tail) (N @ '' ====='') = Some ([g], []) \<and>
       trim g = trim N"
proof (induction N)
  case Nil
  have "rx_at (Star is_ws # CapStar is_dot # comp_tail) '' ====='' = Some ([[]], [])"
    by (simp add: comp_tail_def is_dot_def is_ws_def)
  then show ?case by simp
next
  case (Cons c N)
  then have dc: "is_dot c" and dn: "list_all is_dot N" by simp_all
  show ?case
  proof (cases "is_ws c")
    case True
    from Cons.IH[OF dn] obtain g where
      g: "rx_at (Star is_ws # CapStar is_dot # comp_tail) (N @ '' ====='') = Some ([g], [])"
      and t: "trim g = trim N" by blast
    have "rx_at (Star is_ws # CapStar is_dot # comp_tail) ((c # N) @ '' ====='') = Some ([g], [])"
      using True g by simp
    then show ?thesis using t True by (auto simp: trim_ws_Cons)
  next
    case False
    have w: "\<forall>x\<in>set (c # N @ '' ''). is_dot x"
      using dc dn is_dot_space by (auto simp: list_all_iff)
    have "rx_at (CapStar is_dot # comp_tail) ((c # N @ '' '') @ ''====='') =
          Some (((c # N @ '' '') @ []) # [], [])"
      using w comp_tail_end by (rule capstar_take)
    then have "rx_at (Star is_ws # CapStar is_dot # comp_tail) ((c # N) @ '' ====='') =
          Some ([c # N @ '' ''], [])"
      using False by simp
    moreover have "trim (c # N @ '' '') = trim (c # N)"
      using trim_snoc_ws[OF is_ws_space, of "c # N"] by simp
    ultimately show ?thesis by blast
  qed
qed

lemma compRe_generated:
  assumes "list_all is_dot N"
  shows "\<exists>g. match_groups compRe (''// ===== Component: '' @ N @ '' ====='') = Some [g] \<and>
             trim g = trim N"
proof -
  from comp_name_group[OF assms] obtain g where
    g: "rx_at (Star is_ws # CapStar is_dot # comp_tail) (N @ '' ====='') = Some ([g], [])"
    and t: "trim g = trim N" by blast
  have "rx_at compRe (''// ===== Component: '' @ N @ '' ====='') = Some ([g], [])"
    using g by (simp add: compRe_def comp_tail_def is_ws_def)
  then show ?thesis using t by (simp add: match_groups_def)
qed

lemma no_paren_star:
  "CHR ''('' \<notin> set s \<Longrightarrow> rx_at (Star p # Lit ''('' # r) s = None"
  by (induction s) auto

lemma no_paren_capstar:
  "CHR ''('' \<notin> set s \<Longrightarrow> rx_at (CapStar p # Star q # Lit ''('' # r) s = None"
  by (induction s) (auto simp: no_paren_star)

lemma lang_tail_end: "rx_at (CapStar is_dot # lang_tail) '') ----'' = Some ([[]], [])"
  by (simp add: lang_tail_def is_dot_def is_ws_def)

lemma lang_group:
  "list_all is_dot L \<Longrightarrow> rx_at (CapStar is_dot # lang_tail) (L @ '') ----'') = Some ([L], [])"
  using capstar_take[of L is_dot lang_tail "'') ----''" "[]" "[]" "[]"] lang_tail_end
  by (simp add: list_all_iff)

lemma is_dot_paren: "is_dot (CHR ''('')" by (simp add: is_dot_def)
lemma not_ws_paren: "\<not> is_ws (CHR ''('')" by (simp add: is_ws_def)

lemma title_tail_paren:
  assumes "list_all is_dot L" and "CHR ''('' \<notin> set L"
  shows "rx_at (CapStar is_dot # title_tail) (''('' @ L @ '') ----'') = Some ([[], L], [])"
proof -
  have "CHR ''('' \<notin> set (L @ '') ----'')" using assms(2) by simp
  then have 1: "rx_at (CapStar is_dot # title_tail) (L @ '') ----'') = None"
    unfolding title_tail_def by (rule no_paren_capstar)
  have 2: "rx_at title_tail (''('' @ L @ '') ----'') = Some ([L], [])"
    using lang_group[OF assms(1)] not_ws_paren by (simp add: title_tail_def)
  show ?thesis
    using 1 2 is_dot_paren by simp
qed

lemma sec_groups:
  assumes "list_all is_dot L" and "CHR ''('' \<notin> set L"
  shows "list_all is_dot T \<Longrightarrow>
   \<exists>g. rx_at (Star is_ws # CapStar is_dot # title_tail) (T @ '' ('' @ L @ '') ----'') =
         Some ([g, L], []) \<and> trim g = trim T"
proof (induction T)
  case Nil
  have "rx_at (Star is_ws # CapStar is_dot # title_tail) (''('' @ L @ '') ----'') = Some ([[], L], [])"
    using title_tail_paren[OF assms] not_ws_paren by simp
  then have "rx_at (Star is_ws # CapStar is_dot # title_tail) ([] @ '' ('' @ L @ '') ----'') =
      Some ([[], L], [])"
    using is_ws_space by simp
  then show ?case by blast
next
  case (Cons c T)
  then have dc: "is_dot c" and dn: "list_all is_dot T" by simp_all
  show ?case
  proof (cases "is_ws c")
    case True
    from Cons.IH[OF dn] obtain g where
      g: "rx_at (Star is_ws # CapStar is_dot # title_tail) (T @ '' ('' @ L @ '') ----'') =
            Some ([g, L], [])"
      and t: "trim g = trim T" by blast
    have "rx_at (Star is_ws # CapStar is_dot # title_tail) ((c # T) @ '' ('' @ L @ '') ----'') =
            Some ([g, L], [])"
      using True g by simp
    then show ?thesis using t True by (auto simp: trim_ws_Cons)
  next
    case False
    have w: "\<forall>x\<in>set (c # T @ '' ''). is_dot x"
      using dc dn is_dot_space by (auto simp: list_all_iff)
    have "rx_at (CapStar is_dot # title_tail) ((c # T @ '' '') @ (''('' @ L @ '') ----'')) =
          Some (((c # T @ '' '') @ []) # [L], [])"
      using w title_tail_paren[OF assms] by (rule capstar_take)
    then have "rx_at (Star is_ws # CapStar is_dot # title_tail) ((c # T) @ '' ('' @ L @ '') ----'') =
          Some ([c # T @ '' '', L], [])"
      using False by simp
    moreover have "trim (c # T @ '' '') = trim (c # T)"
      using trim_snoc_ws[OF is_ws_space, of "c # T"] by simp
    ultimately show ?thesis by blast
  qed
qed

lemma secRe_generated:
  assumes "list_all is_dot T" and "list_all is_dot L" and "CHR ''('' \<notin> set L"
  shows "\<exists>g. match_groups secRe (''// ---- '' @ T @ '' ('' @ L @ '') ----'') = Some [g, L] \<and>
             trim g = trim T"
proof -
  from sec_groups[OF assms(2,3,1)] obtain g where
    g: "rx_at (Star is_ws # CapStar is_dot # title_tail) (T @ '' ('' @ L @ '') ----'') =
            Some ([g, L], [])"
    and t: "trim g = trim T" by blast
  have "rx_at secRe (''// ---- '' @ T @ '' ('' @ L @ '') ----'') = Some ([g, L], [])"
    using g by (simp add: secRe_def title_tail_def lang_tail_def is_ws_def)
  then show ?thesis using t by (simp add: match_groups_def)
qed

lemma compRe_not_section: "match_groups compRe (''// ---- '' @ X) = None"
  by (simp add: match_groups_def compRe_def is_ws_def)

lemma untab_filter: "untab s = filter (\<lambda>c. c \<noteq> TAB) s"
  unfolding untab_def by (induction s) auto

lemma untab_is_dot: "list_all is_dot s \<Longrightarrow> list_all is_dot (untab s)"
  by (simp add: untab_filter list_all_iff)

lemma comp_header_generated:
  assumes "list_all is_dot N"
  shows "is_comp_header (''// ===== Component: '' @ N @ '' ====='')"
    and "header_name (''// ===== Component: '' @ N @ '' ====='') = trim (untab N)"
proof -
  have u: "untab (''// ===== Component: '' @ N @ '' ====='') =
           ''// ===== Component: '' @ untab N @ '' =====''"
    by (simp add: untab_filter)
  from compRe_generated[OF untab_is_dot[OF assms]] obtain g where
    g: "match_groups compRe (''// ===== Component: '' @ untab N @ '' ====='') = Some [g]"
    and t: "trim g = trim (untab N)" by blast
  show "is_comp_header (''// ===== Component: '' @ N @ '' ====='')"
    unfolding is_comp_header_def u using g by simp
  show "header_name (''// ===== Component: '' @ N @ '' ====='') = trim (untab N)"
    unfolding header_name_def u using g t by simp
qed

lemma sec_header_generated:
  assumes "list_all is_dot T" and "list_all is_dot L" and "CHR ''('' \<notin> set L"
  shows "is_sec_header (''// ---- '' @ T @ '' ('' @ L @ '') ----'')"
    and "\<not> is_comp_header (''// ---- '' @ T @ '' ('' @ L @ '') ----'')"
    and "header_title (''// ---- '' @ T @ '' ('' @ L @ '') ----'') = trim (untab T)"
    and "header_lang (''// ---- '' @ T @ '' ('' @ L @ '') ----'') = toLowerCase (trim (untab L))"
proof -
  have u: "untab (''// ---- '' @ T @ '' ('' @ L @ '') ----'') =
           ''// ---- '' @ untab T @ '' ('' @ untab L @ '') ----''"
    by (simp add: untab_filter)
  have p: "CHR ''('' \<notin> set (untab L)" using assms(3) by (simp add: untab_filter)
  from secRe_generated[OF untab_is_dot[OF assms(1)] untab_is_dot[OF assms(2)] p] obtain g where
    g: "match_groups secRe (''// ---- '' @ untab T @ '' ('' @ untab L @ '') ----'') =
          Some [g, untab L]"
    and t: "trim g = trim (untab T)" by blast
  show "is_sec_header (''// ---- '' @ T @ '' ('' @ L @ '') ----'')"
    unfolding is_sec_header_def u using g by simp
  show "\<not> is_comp_header (''// ---- '' @ T @ '' ('' @ L @ '') ----'')"
    unfolding is_comp_header_def u using compRe_not_section by simp
  show "header_title (''// ---- '' @ T @ '' ('' @ L @ '') ----'') = trim (untab T)"
    unfolding header_title_def u using g t by simp
  show "header_lang (''// ---- '' @ T @ '' ('' @ L @ '') ----'') = toLowerCase (trim (untab L))"
    unfolding header_lang_def u using g by simp
qed

lemma blank_not_header: "\<not> is_header []"
  by (simp add: is_header_def is_comp_header_def is_sec_header_def match_groups_def untab_def
        compRe_def secRe_def)

lemma split_lines_crlf: "split_lines s = rx_split crlfRe [] s"
  by (simp add: split_lines_def crlfRe_def)

lemma rx_split_LF: "rx_split crlfRe acc (LF # s) = acc # rx_split crlfRe [] s"
  by (simp add: crlfRe_def rx_split.simps)

lemma rx_split_CRLF: "rx_split crlfRe acc (CR # LF # s) = acc # rx_split crlfRe [] s"
  by (simp add: crlfRe_def rx_split.simps)

lemma rx_split_other:
  "c \<noteq> LF \<Longrightarrow> c \<noteq> CR \<or> s = [] \<or> hd s \<noteq> LF \<Longrightarrow>
   rx_split crlfRe acc (c # s) = rx_split crlfRe (acc @ [c]) s"
  by (cases s) (auto simp: crlfRe_def rx_split.simps)

declare rx_split.simps [simp del]

lemma rx_split_Nil: "rx_split r acc [] = [acc]"
  by (simp add: rx_split.simps)

lemma rx_split_not_Nil: "rx_split r acc s \<noteq> []"
  by (induction r acc s rule: rx_split.induct) (auto simp: rx_split.simps split: option.splits)

lemma butlast_Cons_split: "butlast (acc # rx_split r a s) = acc # butlast (rx_split r a s)"
  by (simp add: rx_split_not_Nil)

lemma rx_split_append_LF:
  "rx_split crlfRe acc (x @ LF # y) =
   butlast (rx_split crlfRe acc (x @ [LF])) @ rx_split crlfRe [] y"
proof (induction x arbitrary: acc rule: induct_list012)
  case 1
  show ?case by (simp add: rx_split_LF rx_split_Nil)
next
  case (2 c)
  consider "c = LF" | "c = CR" | "c \<noteq> LF" "c \<noteq> CR" by blast
  then show ?case
  proof cases
    case 1
    then show ?thesis by (simp add: rx_split_LF rx_split_Nil)
  next
    case 2
    then show ?thesis by (simp add: rx_split_CRLF rx_split_LF rx_split_Nil)
  next
    case 3
    then show ?thesis by (simp add: rx_split_other rx_split_LF rx_split_Nil)
  qed
next
  case (3 c d zs)
  consider "c = LF" | "c = CR" "d = LF" | "c = CR" "d \<noteq> LF" | "c \<noteq> LF" "c \<noteq> CR" by blast
  then show ?case
  proof cases
    case 1
    then show ?thesis using 3(2)[of "[]"] by (simp add: rx_split_LF rx_split_not_Nil)
  next
    case 2
    then show ?thesis using 3(1)[of "[]"] by (simp add: rx_split_CRLF rx_split_not_Nil)
  next
    case 3
    then have "rx_split crlfRe acc (c # (d # zs) @ LF # y) =
               rx_split crlfRe (acc @ [c]) ((d # zs) @ LF # y)"
      and "rx_split crlfRe acc (c # (d # zs) @ [LF]) =
               rx_split crlfRe (acc @ [c]) ((d # zs) @ [LF])"
      by (simp_all add: rx_split_other)
    then show ?thesis using "3.IH"(2)[of "acc @ [c]"] by simp
  next
    case 4
    then have "rx_split crlfRe acc (c # (d # zs) @ LF # y) =
               rx_split crlfRe (acc @ [c]) ((d # zs) @ LF # y)"
      and "rx_split crlfRe acc (c # (d # zs) @ [LF]) =
               rx_split crlfRe (acc @ [c]) ((d # zs) @ [LF])"
      by (simp_all add: rx_split_other)
    then show ?thesis using "3.IH"(2)[of "acc @ [c]"] by simp
  qed
qed

lemma split_lines_append_LF:
  "split_lines (x @ LF # y) = code_lines x @ split_lines y"
  unfolding split_lines_crlf code_lines_def by (rule rx_split_append_LF)

lemma split_lines_Nil: "split_lines [] = [[]]"
  by (simp add: split_lines_crlf rx_split_Nil)

lemma split_lines_snoc_LF: "split_lines (x @ [LF]) = code_lines x @ [[]]"
  using split_lines_append_LF[of x "[]"] by (simp add: split_lines_Nil)

lemma code_lines_snoc_LF: "code_lines (x @ [LF]) = code_lines x @ [[]]"
proof -
  have "split_lines ((x @ [LF]) @ [LF]) = code_lines x @ split_lines [LF]"
    using split_lines_append_LF[of x "[LF]"] by simp
  moreover have "split_lines [LF] = [[], []]"
    by (simp add: split_lines_crlf rx_split_LF rx_split_Nil)
  ultimately have "split_lines ((x @ [LF]) @ [LF]) = (code_lines x @ [[]]) @ [[]]" by simp
  then show ?thesis unfolding code_lines_def[of "x @ [LF]"] by (simp only: butlast_snoc)
qed

lemma split_lines_ends_LF: "split_lines (x @ [LF]) = code_lines (x @ [LF])"
  by (simp add: split_lines_snoc_LF code_lines_snoc_LF)

lemma rx_split_no_break:
  "LF \<notin> set h \<Longrightarrow> h = [] \<or> last h \<noteq> CR \<Longrightarrow>
   rx_split crlfRe acc (h @ [LF]) = [acc @ h, []]"
proof (induction h arbitrary: acc)
  case Nil
  show ?case by (simp add: rx_split_LF rx_split_Nil)
next
  case (Cons c h)
  from Cons.prems have c: "c \<noteq> LF" and h: "LF \<notin> set h" by auto
  have l: "h = [] \<or> last h \<noteq> CR" using Cons.prems(2) by (cases h) auto
  have "c \<noteq> CR \<or> h @ [LF] = [] \<or> hd (h @ [LF]) \<noteq> LF"
    using Cons.prems h by (cases h) auto
  then have "rx_split crlfRe acc (c # h @ [LF]) = rx_split crlfRe (acc @ [c]) (h @ [LF])"
    using c by (rule rx_split_other[rotated])
  then show ?case using Cons.IH[OF h l, of "acc @ [c]"] by simp
qed

lemma code_lines_no_break:
  "LF \<notin> set h \<Longrightarrow> h = [] \<or> last h \<noteq> CR \<Longrightarrow> code_lines h = [h]"
  by (simp add: code_lines_def split_lines_crlf rx_split_no_break)

lemma code_lines_LF: "code_lines [LF] = [[], []]"
  using code_lines_snoc_LF[of "[]"] code_lines_no_break[of "[]"] by simp

lemma split_lines_join:
  "parts \<noteq> [] \<Longrightarrow> \<exists>q. last parts = q @ [LF] \<Longrightarrow>
   split_lines (join [LF] parts) = concat (map code_lines parts)"
proof (induction parts rule: induct_list012)
  case 1
  then show ?case by simp
next
  case (2 p)
  then obtain q where "p = q @ [LF]" by auto
  then show ?case by (simp add: split_lines_ends_LF)
next
  case (3 p p' ps)
  from 3(4) have "\<exists>q. last (p' # ps) = q @ [LF]" by simp
  then have "split_lines (join [LF] (p' # ps)) = concat (map code_lines (p' # ps))"
    using "3.IH"(2) by simp
  then show ?case by (simp add: split_lines_append_LF)
qed

lemma is_dot_no_LF: "list_all is_dot s \<Longrightarrow> LF \<notin> set s"
  by (auto simp: list_all_iff is_dot_def)

lemma code_lines_comp_line:
  "list_all is_dot (child_label ch) \<Longrightarrow> code_lines (comp_line ch @ [LF]) = [comp_line ch, []]"
proof -
  assume "list_all is_dot (child_label ch)"
  then have "LF \<notin> set (comp_line ch)" using is_dot_no_LF by (auto simp: comp_line_def)
  moreover have "last (comp_line ch) \<noteq> CR" by (simp add: comp_line_def)
  ultimately have "code_lines (comp_line ch) = [comp_line ch]" by (simp add: code_lines_no_break)
  then show ?thesis by (simp add: code_lines_snoc_LF)
qed

lemma code_lines_sec_line:
  "list_all is_dot (block_label b) \<Longrightarrow> list_all is_dot (b_lang b) \<Longrightarrow>
   code_lines (sec_line b @ [LF]) = [sec_line b, []]"
proof -
  assume "list_all is_dot (block_label b)" "list_all is_dot (b_lang b)"
  then have "LF \<notin> set (sec_line b)" using is_dot_no_LF by (auto simp: sec_line_def)
  moreover have "last (sec_line b) \<noteq> CR" by (simp add: sec_line_def)
  ultimately have "code_lines (sec_line b) = [sec_line b]" by (simp add: code_lines_no_break)
  then show ?thesis by (simp add: code_lines_snoc_LF)
qed

lemma block_parts_eq: "block_parts b = [sec_line b @ [LF], b_code b, [LF]]"
  by (simp add: block_parts_def sec_line_def block_label_def)

lemma child_parts_eq:
  "ch_component ch \<Longrightarrow>
   child_parts ch = (comp_line ch @ [LF]) # concat (map block_parts (ch_blocks ch))"
  by (simp add: child_parts_def comp_line_def child_label_def)

lemma lines_of_block:
  "block_ok b \<Longrightarrow> concat (map code_lines (block_parts b)) = sec_lines (block_of b)"
  by (simp add: block_parts_eq block_ok_def code_lines_sec_line code_lines_LF block_of_def
        sec_lines_def)

lemma lines_of_blocks:
  "list_all block_ok bs \<Longrightarrow>
   concat (map code_lines (concat (map block_parts bs))) = concat (map sec_lines (map block_of bs))"
  by (induction bs) (simp_all add: lines_of_block)

lemma lines_of_child:
  "ch_component ch \<Longrightarrow> child_ok ch \<Longrightarrow>
   concat (map code_lines (child_parts ch)) = comp_lines (blocks_of ch)"
  by (simp add: child_parts_eq child_ok_def code_lines_comp_line lines_of_blocks blocks_of_def
        comp_lines_def)

lemma lines_of_children:
  "list_all (\<lambda>ch. ch_component ch \<and> child_ok ch) ks \<Longrightarrow>
   concat (map code_lines (concat (map child_parts ks))) = concat (map comp_lines (map blocks_of ks))"
  by (induction ks) (simp_all add: lines_of_child)

lemma parts_filter:
  "concat (map child_parts children) = concat (map child_parts (filter ch_component children))"
  by (induction children) (simp_all add: child_parts_def)

lemma last_block_parts: "bs \<noteq> [] \<Longrightarrow> last (concat (map block_parts bs)) = [LF]"
  by (induction bs rule: rev_induct) (simp_all add: block_parts_eq)

lemma last_child_parts:
  "ch_component ch \<Longrightarrow> child_parts ch \<noteq> [] \<and> (\<exists>q. last (child_parts ch) = q @ [LF])"
  by (cases "ch_blocks ch = []") (auto simp: child_parts_eq last_block_parts block_parts_eq)

lemma last_parts:
  "ks \<noteq> [] \<Longrightarrow> list_all ch_component ks \<Longrightarrow>
   concat (map child_parts ks) \<noteq> [] \<and> (\<exists>q. last (concat (map child_parts ks)) = q @ [LF])"
proof (induction ks rule: rev_induct)
  case Nil
  then show ?case by simp
next
  case (snoc k ks)
  then have "ch_component k" by simp
  from last_child_parts[OF this] show ?case by simp
qed

lemma sec_line_header:
  assumes "block_ok b"
  shows "is_sec_header (sec_line b)" and "\<not> is_comp_header (sec_line b)"
    and "header_title (sec_line b) = trim (untab (block_label b))"
    and "header_lang (sec_line b) = toLowerCase (trim (untab (b_lang b)))"
proof -
  from assms have a: "list_all is_dot (block_label b)" "list_all is_dot (b_lang b)"
    "CHR ''('' \<notin> set (b_lang b)" by (simp_all add: block_ok_def)
  show "is_sec_header (sec_line b)"
    unfolding sec_line_def by (rule sec_header_generated(1)[OF a])
  show "\<not> is_comp_header (sec_line b)"
    unfolding sec_line_def by (rule sec_header_generated(2)[OF a])
  show "header_title (sec_line b) = trim (untab (block_label b))"
    unfolding sec_line_def by (rule sec_header_generated(3)[OF a])
  show "header_lang (sec_line b) = toLowerCase (trim (untab (b_lang b)))"
    unfolding sec_line_def by (rule sec_header_generated(4)[OF a])
qed

lemma comp_line_header:
  assumes "list_all is_dot (child_label ch)"
  shows "is_comp_header (comp_line ch)"
    and "header_name (comp_line ch) = trim (untab (child_label ch))"
proof -
  show "is_comp_header (comp_line ch)"
    unfolding comp_line_def by (rule comp_header_generated(1)[OF assms])
  show "header_name (comp_line ch) = trim (untab (child_label ch))"
    unfolding comp_line_def by (rule comp_header_generated(2)[OF assms])
qed

lemma block_of_ok: "block_ok b \<Longrightarrow> sec_ok (block_of b)"
  using blank_not_header
  by (simp add: sec_ok_def block_of_def sec_line_header) (simp add: block_ok_def)

lemma block_of_section: "block_ok b \<Longrightarrow> sec_of (block_of b) = section_of_block b"
  by (simp add: sec_of_def block_of_def sec_line_header section_of_block_def)

lemma blocks_of_ok: "child_ok ch \<Longrightarrow> comp_ok (blocks_of ch)"
  using blank_not_header
  by (simp add: child_ok_def comp_ok_def blocks_of_def comp_line_header list_all_iff block_of_ok)

lemma blocks_of_component: "child_ok ch \<Longrightarrow> comp_of (blocks_of ch) = component_of_child ch"
  by (simp add: child_ok_def comp_of_def blocks_of_def comp_line_header
        component_of_child_def list_all_iff block_of_section)

lemma round_trip:
  "list_all child_ok (filter ch_component children) \<and>
   downloadAllFromFrame children = Some txt \<longrightarrow>
     parseBlocks txt = map component_of_child (filter ch_component children)"
proof (intro impI, elim conjE)
  let ?ks = "filter ch_component children"
  let ?parts = "concat (map child_parts ?ks)"
  assume ok: "list_all child_ok ?ks" and dl: "downloadAllFromFrame children = Some txt"
  from dl have ne: "?parts \<noteq> []" and tx: "txt = join [LF] ?parts"
    using parts_filter[of children] by (auto simp: downloadAllFromFrame_def Let_def split: if_splits)
  have comp: "list_all ch_component ?ks" by (simp add: list_all_iff)
  from ne have "?ks \<noteq> []" by (cases "?ks = []") simp_all
  from last_parts[OF this comp] have l: "\<exists>q. last ?parts = q @ [LF]" by simp
  have both: "list_all (\<lambda>ch. ch_component ch \<and> child_ok ch) ?ks"
    using ok by (simp add: list_all_iff)
  have "split_lines txt = concat (map code_lines ?parts)"
    unfolding tx using ne l by (rule split_lines_join)
  also have "\<dots> = concat (map comp_lines (map blocks_of ?ks))"
    using both by (rule lines_of_children)
  finally have sl: "split_lines txt = [] @ concat (map comp_lines (map blocks_of ?ks))" by simp
  have d: "list_all comp_ok (map blocks_of ?ks)"
    using ok by (simp add: list_all_iff blocks_of_ok)
  have "parse_lines ([] @ concat (map comp_lines (map blocks_of ?ks))) = map comp_of (map blocks_of ?ks)"
    by (rule parse_lines_shape[OF _ d]) simp
  then have "parseBlocks txt = map comp_of (map blocks_of ?ks)"
    unfolding parseBlocks_def sl .
  also have "\<dots> = map component_of_child ?ks"
    using ok by (simp add: list_all_iff blocks_of_component)
  finally show "parseBlocks txt = map component_of_child ?ks" .
qed


lemma code_lines_no_CR_acc:
  "CR \<notin> set x \<Longrightarrow>
   concat (map (\<lambda>l. l @ [LF]) (butlast (rx_split crlfRe acc (x @ [LF])))) = acc @ x @ [LF]"
proof (induction x arbitrary: acc)
  case Nil
  show ?case by (simp add: rx_split_LF rx_split_Nil)
next
  case (Cons c x)
  then have c: "c \<noteq> CR" and x: "CR \<notin> set x" by auto
  show ?case
  proof (cases "c = LF")
    case True
    then show ?thesis using Cons.IH[OF x, of "[]"] by (simp add: rx_split_LF rx_split_not_Nil)
  next
    case False
    then have "rx_split crlfRe acc (c # x @ [LF]) = rx_split crlfRe (acc @ [c]) (x @ [LF])"
      using c by (simp add: rx_split_other)
    then show ?thesis using Cons.IH[OF x, of "acc @ [c]"] by simp
  qed
qed

lemma code_lines_no_CR:
  "CR \<notin> set x \<Longrightarrow> concat (map (\<lambda>l. l @ [LF]) (code_lines x)) = x @ [LF]"
  using code_lines_no_CR_acc[of x "[]"] by (simp add: code_lines_def split_lines_crlf)

lemma count_LF_lines_acc:
  "count_list (concat (map (\<lambda>l. l @ [LF]) (butlast (rx_split crlfRe acc (x @ [LF]))))) LF =
   count_list acc LF + count_list x LF + 1"
proof (induction x arbitrary: acc rule: induct_list012)
  case 1
  show ?case by (simp add: rx_split_LF rx_split_Nil)
next
  case (2 c)
  consider "c = LF" | "c = CR" | "c \<noteq> LF" "c \<noteq> CR" by blast
  then show ?case
  proof cases
    case 1
    then show ?thesis by (simp add: rx_split_LF rx_split_Nil)
  next
    case 2
    then show ?thesis by (simp add: rx_split_CRLF rx_split_Nil)
  next
    case 3
    then show ?thesis by (simp add: rx_split_other rx_split_LF rx_split_Nil)
  qed
next
  case (3 c d zs)
  consider "c = LF" | "c = CR" "d = LF" | "c = CR" "d \<noteq> LF" | "c \<noteq> LF" "c \<noteq> CR" by blast
  then show ?case
  proof cases
    case 1
    then show ?thesis using "3.IH"(2)[of "[]"] by (simp add: rx_split_LF rx_split_not_Nil)
  next
    case 2
    then show ?thesis using "3.IH"(1)[of "[]"] by (simp add: rx_split_CRLF rx_split_not_Nil)
  next
    case 3
    then have "rx_split crlfRe acc (c # (d # zs) @ [LF]) =
               rx_split crlfRe (acc @ [c]) ((d # zs) @ [LF])"
      by (simp add: rx_split_other)
    then show ?thesis using "3.IH"(2)[of "acc @ [c]"] 3 by simp
  next
    case 4
    then have "rx_split crlfRe acc (c # (d # zs) @ [LF]) =
               rx_split crlfRe (acc @ [c]) ((d # zs) @ [LF])"
      by (simp add: rx_split_other)
    then show ?thesis using "3.IH"(2)[of "acc @ [c]"] 4 by simp
  qed
qed

lemma count_LF_section_code:
  "count_list (code (section_of_block b)) LF = count_list (b_code b) LF + 4"
  using count_LF_lines_acc[of "[]" "b_code b"]
  by (simp add: section_of_block_def code_lines_def split_lines_crlf)

lemma section_code_differs: "code (section_of_block b) \<noteq> b_code b"
proof
  assume "code (section_of_block b) = b_code b"
  then have "count_list (code (section_of_block b)) LF = count_list (b_code b) LF" by simp
  then show False by (simp add: count_LF_section_code)
qed

lemma trim_id: "s = [] \<or> \<not> is_ws (hd s) \<and> \<not> is_ws (last s) \<Longrightarrow> trim s = s"
proof (cases s)
  case Nil
  then show ?thesis by (simp add: trim_def)
next
  case (Cons c t)
  assume "s = [] \<or> \<not> is_ws (hd s) \<and> \<not> is_ws (last s)"
  with Cons have h: "\<not> is_ws c" and l: "\<not> is_ws (last (c # t))" by simp_all
  have "rev (c # t) \<noteq> []" by simp
  then obtain d u where r: "rev (c # t) = d # u" by (cases "rev (c # t)") auto
  then have "d = last (c # t)" by (metis last_rev list.sel(1) rev_rev_ident hd_rev)
  then have "\<not> is_ws d" using l by simp
  then have "dropWhile is_ws (rev (c # t)) = rev (c # t)" unfolding r by simp
  then show ?thesis using h Cons by (simp add: trim_def)
qed

lemma untab_id: "TAB \<notin> set s \<Longrightarrow> untab s = s"
  by (simp add: untab_filter filter_id_conv) metis

lemma download_None_iff:
  "downloadAllFromFrame children = None \<longleftrightarrow> filter ch_component children = []"
proof -
  have "concat (map child_parts children) = [] \<longleftrightarrow> filter ch_component children = []"
  proof
    assume "concat (map child_parts children) = []"
    then have a: "concat (map child_parts (filter ch_component children)) = []"
      using parts_filter[of children] by simp
    show "filter ch_component children = []"
    proof (rule ccontr)
      assume "filter ch_component children \<noteq> []"
      moreover have "list_all ch_component (filter ch_component children)" by (simp add: list_all_iff)
      ultimately show False using last_parts a by blast
    qed
  next
    assume "filter ch_component children = []"
    then show "concat (map child_parts children) = []"
      using parts_filter[of children] by simp
  qed
  then show ?thesis by (simp add: downloadAllFromFrame_def Let_def)
qed

text \<open>
  C9 (as amended). The exporter produces a text exactly when some child of the frame gives a
  design component. If, for those children, no label or language tag has a line break, no
  language tag has an opening parenthesis and no line of a block's code is taken for a
  header, then parsing the exported text gives exactly one component per such child, in
  order: its name is the child's name (or id) with tabs removed and trimmed, and its
  sections are the child's blocks in order, with the title with tabs removed and trimmed,
  the language tag trimmed and in lower case, and as code the lines of the block's code
  after one empty line and before two. For a code without carriage returns that is the
  code between one newline and three; in every case the parsed code differs from the
  block's code. A label without tabs and without white space at its ends is returned
  unchanged.
\<close>

theorem export_import_round_trip:
  "(downloadAllFromFrame children = None \<longleftrightarrow> filter ch_component children = []) \<and>
   (list_all child_ok (filter ch_component children) \<and>
    downloadAllFromFrame children = Some txt \<longrightarrow>
      parseBlocks txt = map component_of_child (filter ch_component children)) \<and>
   (CR \<notin> set (b_code b) \<longrightarrow> code (section_of_block b) = [LF] @ b_code b @ [LF, LF, LF]) \<and>
   code (section_of_block b) \<noteq> b_code b \<and>
   (TAB \<notin> set s \<and> (s = [] \<or> \<not> is_ws (hd s) \<and> \<not> is_ws (last s)) \<longrightarrow> trim (untab s) = s)"
  using download_None_iff[of children] round_trip[of children "txt"] section_code_differs[of b]
    code_lines_no_CR[of "b_code b"]
  by (simp add: section_of_block_def untab_id trim_id)

theorem export_import_round_trip_witness:
  "parseBlocks
     (''// ===== Component: Button ====='' @ [LF, LF] @ ''// ---- Styles (CSS) ----'' @ [LF, LF] @
      ''color: red;'' @ [LF] @ ''margin: 0'' @ [LF, LF]) =
     [\<lparr>name = ''Button'',
       sections = [\<lparr>title = ''Styles'', lang = ''css'',
                    code = [LF] @ ''color: red;'' @ [LF] @ ''margin: 0'' @ [LF, LF, LF]\<rparr>]\<rparr>]"
proof -
  let ?b = "\<lparr>b_title = ''Styles'', b_name = ''css'', b_lang = ''CSS'',
             b_code = ''color: red;'' @ [LF] @ ''margin: 0''\<rparr>"
  let ?c1 = "\<lparr>ch_name = ''Button'', ch_id = ''1:2'', ch_component = True, ch_blocks = [?b]\<rparr>"
  let ?c2 = "\<lparr>ch_name = ''Line'', ch_id = ''1:3'', ch_component = False, ch_blocks = []\<rparr>"
  let ?txt = "''// ===== Component: Button ====='' @ [LF, LF] @ ''// ---- Styles (CSS) ----'' @ [LF, LF] @
      ''color: red;'' @ [LF] @ ''margin: 0'' @ [LF, LF]"
  have cl: "code_lines (''color: red;'' @ [LF] @ ''margin: 0'') = [''color: red;'', ''margin: 0'']"
    by (simp add: code_lines_def split_lines_def rx_split.simps)
  note cl = cl[simplified]
  have ok: "list_all child_ok (filter ch_component [?c1, ?c2])"
    by (simp add: child_ok_def block_ok_def child_label_def block_label_def cl is_header_def
          is_comp_header_def is_sec_header_def ev_defs)
  have dl: "downloadAllFromFrame [?c1, ?c2] = Some ?txt"
    by (simp add: ev_defs)
  have r: "map component_of_child (filter ch_component [?c1, ?c2]) =
     [\<lparr>name = ''Button'',
       sections = [\<lparr>title = ''Styles'', lang = ''css'',
                    code = [LF] @ ''color: red;'' @ [LF] @ ''margin: 0'' @ [LF, LF, LF]\<rparr>]\<rparr>]"
    by (simp add: component_of_child_def section_of_block_def child_label_def block_label_def cl
          ev_defs)
  from export_import_round_trip[of "[?c1, ?c2]" ?txt] ok dl
  have "parseBlocks ?txt = map component_of_child (filter ch_component [?c1, ?c2])"
    by blast
  then show ?thesis unfolding r .
qed

text \<open>
  C9 as stated fails for a child whose name starts with a space: the parsed name is trimmed.
\<close>

theorem round_trip_name_counterexample:
  "downloadAllFromFrame
     [\<lparr>ch_name = '' Card'', ch_id = ''1:2'', ch_component = True,
       ch_blocks = [\<lparr>b_title = ''Markup'', b_name = ''m'', b_lang = ''vue'', b_code = ''<p/>''\<rparr>]\<rparr>] =
     Some (''// ===== Component:  Card ====='' @ [LF, LF] @ ''// ---- Markup (vue) ----'' @ [LF, LF] @
           ''<p/>'' @ [LF, LF]) \<and>
   map name (parseBlocks
          (''// ===== Component:  Card ====='' @ [LF, LF] @ ''// ---- Markup (vue) ----'' @ [LF, LF] @
           ''<p/>'' @ [LF, LF])) = [''Card''] \<and>
   ''Card'' \<noteq> '' Card''"
  by (simp add: ev_defs rx_split.simps)

section \<open>Script resolution: the first candidate\<close>

lemma push_part_html:
  "fst (push_part (h, cs, js) s) =
     h @ (if lang s = [] \<or> includes_str (lang s) ''css'' then []
          else if lang s = ''html'' \<or> lang s = ''vue'' \<or> lang s = ''template'' \<or>
                  lang s = ''component'' then [code s]
          else if lang s = ''js'' \<or> lang s = ''jsx'' \<or> lang s = ''tsx'' then []
          else [''<pre>'' @ escapeHtml (code s) @ ''</pre>''])"
  by (simp add: push_part_def del: includes_str.simps)

lemma foldl_push_part_fst:
  assumes f: "\<And>h cs js s. fst (push_part (h, cs, js) s) = h @ f s"
  shows "fst (foldl push_part (h, cs, js) ss) = h @ concat (map f ss)"
proof (induction ss arbitrary: h cs js)
  case Nil
  show ?case by simp
next
  case (Cons s ss)
  obtain h1 c1 j1 where 1: "push_part (h, cs, js) s = (h1, c1, j1)"
    by (cases "push_part (h, cs, js) s") auto
  have 2: "h1 = h @ f s"
    using f[of h cs js s] unfolding 1 by simp
  have "fst (foldl push_part (h @ f s, c1, j1) ss) = (h @ f s) @ concat (map f ss)"
    by (rule Cons.IH)
  then show ?case using 1 2 by simp
qed

lemma section_parts_html:
  "fst (section_parts c) =
     concat (map (\<lambda>s.
          if lang s = [] \<or> includes_str (lang s) ''css'' then []
          else if lang s = ''html'' \<or> lang s = ''vue'' \<or> lang s = ''template'' \<or>
                  lang s = ''component'' then [code s]
          else if lang s = ''js'' \<or> lang s = ''jsx'' \<or> lang s = ''tsx'' then []
          else [''<pre>'' @ escapeHtml (code s) @ ''</pre>'']) (sections c))"
  unfolding section_parts_def
  by (subst foldl_push_part_fst[where f = "\<lambda>s.
          if lang s = [] \<or> includes_str (lang s) ''css'' then []
          else if lang s = ''html'' \<or> lang s = ''vue'' \<or> lang s = ''template'' \<or>
                  lang s = ''component'' then [code s]
          else if lang s = ''js'' \<or> lang s = ''jsx'' \<or> lang s = ''tsx'' then []
          else [''<pre>'' @ escapeHtml (code s) @ ''</pre>'']"]) (simp_all add: push_part_html)

text \<open>
  C5 (as amended). Only the first script candidate (the first section tagged \<open>js\<close>, \<open>jsx\<close> or
  \<open>tsx\<close>) is tested. The template is the template parts joined by newlines (the code of the
  sections tagged \<open>html\<close>, \<open>vue\<close>, \<open>template\<close> or \<open>component\<close>, and the escaped code of the
  sections with an unknown tag between \<open><pre>\<close> and \<open></pre>\<close>), or the fallback markup when
  there is none. If the trimmed text of the first script candidate starts with \<open>{\<close> and ends
  with \<open>}\<close>, the setup script binds it to \<open>inlineStyle\<close> and the template is put between the
  lines \<^verbatim>\<open><div :style="inlineStyle">\<close> and \<^verbatim>\<open></div>\<close>, unless it already contains \<open>:style\<close>:
  then it stays as it is. Otherwise all script candidates are joined verbatim as the setup
  script and the template is not wrapped, also when a later candidate is wrapped in braces.
\<close>

theorem first_script_candidate_decides:
  "(let js = map code (filter (\<lambda>s. lang s = ''js'' \<or> lang s = ''jsx'' \<or> lang s = ''tsx'') (sections c));
        cs = map code (filter (\<lambda>s. includes_str (lang s) ''css'') (sections c));
        html = concat (map (\<lambda>s.
          if lang s = [] \<or> includes_str (lang s) ''css'' then []
          else if lang s = ''html'' \<or> lang s = ''vue'' \<or> lang s = ''template'' \<or>
                  lang s = ''component'' then [code s]
          else if lang s = ''js'' \<or> lang s = ''jsx'' \<or> lang s = ''tsx'' then []
          else [''<pre>'' @ escapeHtml (code s) @ ''</pre>'']) (sections c));
        template =
          (if html \<noteq> [] then join [LF] html
           else [LF] @ ''<div class='' @ [DQ] @ ''generated-root'' @ [DQ] @ ''>'' @ [LF] @
                ''  <!-- generated component: '' @ name c @ '' -->'' @ [LF] @
                ''  <div>'' @ name c @ ''</div>'' @ [LF] @ ''</div>'' @ [LF]);
        style =
          (if cs \<noteq> []
           then ''<style scoped>'' @ [LF] @ join [LF] cs @ [LF] @ ''</style>'' @ [LF]
           else []);
        first = trim (hd js)
    in js \<noteq> [] \<longrightarrow>
       content (buildSFC c idx) =
         (if 2 \<le> length first \<and> hd first = CHR ''{'' \<and> last first = CHR ''}''
          then ''<!-- Generated from Figma export: '' @ name c @ '' -->'' @ [LF] @
               ''<template>'' @ [LF] @
               (if includes_str template '':style'' then template
                else [LF] @ ''<div :style='' @ [DQ] @ ''inlineStyle'' @ [DQ] @ ''>'' @ [LF] @
                     template @ [LF] @ ''</div>'' @ [LF]) @
               [LF] @ ''</template>'' @ [LF] @ [LF] @
               ''<script setup>'' @ [LF] @ ''const inlineStyle = '' @ first @ [LF] @ [LF] @
               ''</script>'' @ [LF] @ [LF] @ style
          else ''<!-- Generated from Figma export: '' @ name c @ '' -->'' @ [LF] @
               ''<template>'' @ [LF] @ template @ [LF] @ ''</template>'' @ [LF] @ [LF] @
               ''<script setup>'' @ [LF] @ join [LF] js @ [LF] @ [LF] @ ''</script>'' @ [LF] @
               [LF] @ style))"
proof -
  note p = section_parts_eq[of c]
  show ?thesis
    unfolding section_parts_html[symmetric] Let_def
    apply (subst buildSFC_def)
    apply (subst p)
    apply (simp add: resolve_script_def rx_at_objRe script_block_def Let_def sfc_text_def
             wrap_style_def style_block_def base_template_def
             del: rx_at.simps not_None_eq includes_str.simps)
    done
qed

theorem first_script_candidate_decides_witness:
  "content (buildSFC
     \<lparr>name = ''Foo'',
      sections = [\<lparr>title = ''a'', lang = ''jsx'', code = '' { color: 1 } ''\<rparr>,
                  \<lparr>title = ''b'', lang = ''js'', code = ''const x = 1''\<rparr>]\<rparr> 0) =
     ''<!-- Generated from Figma export: Foo -->'' @ [LF] @ ''<template>'' @ [LF] @ [LF] @
     ''<div :style='' @ [DQ] @ ''inlineStyle'' @ [DQ] @ ''>'' @ [LF] @ [LF] @
     ''<div class='' @ [DQ] @ ''generated-root'' @ [DQ] @ ''>'' @ [LF] @
     ''  <!-- generated component: Foo -->'' @ [LF] @ ''  <div>Foo</div>'' @ [LF] @
     ''</div>'' @ [LF] @ [LF] @ ''</div>'' @ [LF] @ [LF] @ ''</template>'' @ [LF, LF] @
     ''<script setup>'' @ [LF] @ ''const inlineStyle = { color: 1 }'' @ [LF, LF] @
     ''</script>'' @ [LF, LF] \<and>
   content (buildSFC
     \<lparr>name = ''Foo'',
      sections = [\<lparr>title = ''t'', lang = ''vue'', code = ''<p :style='' @ [DQ] @ ''s'' @ [DQ] @ ''/>''\<rparr>,
                  \<lparr>title = ''a'', lang = ''js'', code = ''{}''\<rparr>]\<rparr> 0) =
     ''<!-- Generated from Figma export: Foo -->'' @ [LF] @ ''<template>'' @ [LF] @
     ''<p :style='' @ [DQ] @ ''s'' @ [DQ] @ ''/>'' @ [LF] @ ''</template>'' @ [LF, LF] @
     ''<script setup>'' @ [LF] @ ''const inlineStyle = {}'' @ [LF, LF] @
     ''</script>'' @ [LF, LF]"
proof -
  let ?c = "\<lparr>name = ''Foo'',
      sections = [\<lparr>title = ''a'', lang = ''jsx'', code = '' { color: 1 } ''\<rparr>,
                  \<lparr>title = ''b'', lang = ''js'', code = ''const x = 1''\<rparr>]\<rparr>"
  let ?d = "\<lparr>name = ''Foo'',
      sections = [\<lparr>title = ''t'', lang = ''vue'', code = ''<p :style='' @ [DQ] @ ''s'' @ [DQ] @ ''/>''\<rparr>,
                  \<lparr>title = ''a'', lang = ''js'', code = ''{}''\<rparr>]\<rparr>"
  have p: "section_parts ?c = ([], [], ['' { color: 1 } '', ''const x = 1''])"
    by (simp add: section_parts_def push_part_def)
  have q: "section_parts ?d = ([''<p :style='' @ [DQ] @ ''s'' @ [DQ] @ ''/>''], [], [''{}''])"
    by (simp add: section_parts_def push_part_def)
  have t: "trim '' { color: 1 } '' = ''{ color: 1 }''" "trim ''{}'' = ''{}''"
    by (simp_all add: trim_def is_ws_def)
  from first_script_candidate_decides[of ?c 0] have 1: "content (buildSFC ?c 0) =
     ''<!-- Generated from Figma export: Foo -->'' @ [LF] @ ''<template>'' @ [LF] @ [LF] @
     ''<div :style='' @ [DQ] @ ''inlineStyle'' @ [DQ] @ ''>'' @ [LF] @ [LF] @
     ''<div class='' @ [DQ] @ ''generated-root'' @ [DQ] @ ''>'' @ [LF] @
     ''  <!-- generated component: Foo -->'' @ [LF] @ ''  <div>Foo</div>'' @ [LF] @
     ''</div>'' @ [LF] @ [LF] @ ''</div>'' @ [LF] @ [LF] @ ''</template>'' @ [LF, LF] @
     ''<script setup>'' @ [LF] @ ''const inlineStyle = { color: 1 }'' @ [LF, LF] @
     ''</script>'' @ [LF, LF]"
    by (simp add: p t Let_def)
  from first_script_candidate_decides[of ?d 0] have 2: "content (buildSFC ?d 0) =
     ''<!-- Generated from Figma export: Foo -->'' @ [LF] @ ''<template>'' @ [LF] @
     ''<p :style='' @ [DQ] @ ''s'' @ [DQ] @ ''/>'' @ [LF] @ ''</template>'' @ [LF, LF] @
     ''<script setup>'' @ [LF] @ ''const inlineStyle = {}'' @ [LF, LF] @
     ''</script>'' @ [LF, LF]"
    using q by (simp add: t Let_def)
  from 1 2 show ?thesis by simp
qed

text \<open>
  C5 as stated fails: when the second script candidate is wrapped in braces and the first is
  not, no style variable is bound.
\<close>

theorem later_script_candidate_counterexample:
  "content (buildSFC
     \<lparr>name = ''Foo'',
      sections = [\<lparr>title = ''a'', lang = ''js'', code = ''const x = 1''\<rparr>,
                  \<lparr>title = ''b'', lang = ''js'', code = ''{ color: 1 }''\<rparr>]\<rparr> 0) =
     ''<!-- Generated from Figma export: Foo -->'' @ [LF] @ ''<template>'' @ [LF] @ [LF] @
     ''<div class='' @ [DQ] @ ''generated-root'' @ [DQ] @ ''>'' @ [LF] @
     ''  <!-- generated component: Foo -->'' @ [LF] @ ''  <div>Foo</div>'' @ [LF] @
     ''</div>'' @ [LF] @ [LF] @ ''</template>'' @ [LF, LF] @
     ''<script setup>'' @ [LF] @ ''const x = 1'' @ [LF] @ ''{ color: 1 }'' @ [LF, LF] @
     ''</script>'' @ [LF, LF] \<and>
   \<not> includes_str (content (buildSFC
     \<lparr>name = ''Foo'',
      sections = [\<lparr>title = ''a'', lang = ''js'', code = ''const x = 1''\<rparr>,
                  \<lparr>title = ''b'', lang = ''js'', code = ''{ color: 1 }''\<rparr>]\<rparr> 0)) ''inlineStyle''"
  by (simp add: ev_defs)

section \<open>The conversion of declarations to a style object\<close>


































section \<open>Section bodies\<close>

lemma rx_split_acc:
  "rx_split crlfRe acc s = (acc @ hd (rx_split crlfRe [] s)) # tl (rx_split crlfRe [] s)"
proof (induction s arbitrary: acc)
  case Nil
  show ?case by (simp add: rx_split_Nil)
next
  case (Cons c s)
  show ?case
  proof (cases "c = LF")
    case True
    then show ?thesis by (simp add: rx_split_LF)
  next
    case False
    show ?thesis
    proof (cases "c = CR \<and> s \<noteq> [] \<and> hd s = LF")
      case True
      then obtain t where "s = LF # t" by (cases s) auto
      with True show ?thesis by (simp add: rx_split_CRLF)
    next
      case b: False
      then have o: "c \<noteq> CR \<or> s = [] \<or> hd s \<noteq> LF" by blast
      have 1: "rx_split crlfRe a (c # s) = rx_split crlfRe (a @ [c]) s" for a
        using False o by (rule rx_split_other)
      show ?thesis
        unfolding 1 using Cons.IH[of "acc @ [c]"] Cons.IH[of "[] @ [c]"] by simp
    qed
  qed
qed

lemma split_lines_LF: "split_lines (LF # s) = [] # split_lines s"
  by (simp add: split_lines_crlf rx_split_LF)

lemma split_lines_CRLF: "split_lines (CR # LF # s) = [] # split_lines s"
  by (simp add: split_lines_crlf rx_split_CRLF)

lemma split_lines_other:
  assumes "c \<noteq> LF" and "c \<noteq> CR \<or> s = [] \<or> hd s \<noteq> LF"
  shows "split_lines (c # s) = (c # hd (split_lines s)) # tl (split_lines s)"
proof -
  have "rx_split crlfRe [] (c # s) = rx_split crlfRe ([] @ [c]) s"
    using assms by (rule rx_split_other)
  then show ?thesis
    unfolding split_lines_crlf using rx_split_acc[of "[c]" s] by simp
qed

text \<open>
  C8 (as amended). Every input is, in the pieces of \<open>content.split(/\r?\n/)\<close>, some pieces
  without a component header followed by component blocks; and however it is grouped so,
  the parser returns one component per block and one section per section block, whose code
  is the body pieces of the block (the pieces between the section header and the next
  header), in order, each followed by one \<open>\n\<close>, and nothing else. The pieces are the texts
  between the line breaks \<open>\n\<close> and \<open>\r\n\<close>: a piece does not keep its line break, and the text
  after the last line break is a piece, also when it is empty.
\<close>

theorem section_code_is_split_pieces:
  "(\<exists>junk doc. list_all (\<lambda>l. \<not> is_comp_header l) junk \<and> list_all comp_ok doc \<and>
      split_lines txt = junk @ concat (map comp_lines doc)) \<and>
   (\<forall>junk doc. list_all (\<lambda>l. \<not> is_comp_header l) junk \<and> list_all comp_ok doc \<and>
      split_lines txt = junk @ concat (map comp_lines doc) \<longrightarrow>
        parseBlocks txt = map comp_of doc \<and>
        map (\<lambda>c. map code (sections c)) (parseBlocks txt) =
          map (\<lambda>(h, pre, secs). map (\<lambda>(sh, body). concat (map (\<lambda>l. l @ [LF]) body)) secs) doc) \<and>
   split_lines [] = [[]] \<and>
   (\<forall>s. split_lines (LF # s) = [] # split_lines s) \<and>
   (\<forall>s. split_lines (CR # LF # s) = [] # split_lines s) \<and>
   (\<forall>c s. c \<noteq> LF \<and> (c \<noteq> CR \<or> s = [] \<or> hd s \<noteq> LF) \<longrightarrow>
      split_lines (c # s) = (c # hd (split_lines s)) # tl (split_lines s))"
proof (intro conjI allI impI)
  show "\<exists>junk doc. list_all (\<lambda>l. \<not> is_comp_header l) junk \<and> list_all comp_ok doc \<and>
      split_lines txt = junk @ concat (map comp_lines doc)"
    by (rule shape_exists)
next
  fix junk doc
  assume a: "list_all (\<lambda>l. \<not> is_comp_header l) junk \<and> list_all comp_ok doc \<and>
      split_lines txt = junk @ concat (map comp_lines doc)"
  then show p: "parseBlocks txt = map comp_of doc"
    by (simp add: parseBlocks_def parse_lines_shape)
  show "map (\<lambda>c. map code (sections c)) (parseBlocks txt) =
          map (\<lambda>(h, pre, secs). map (\<lambda>(sh, body). concat (map (\<lambda>l. l @ [LF]) body)) secs) doc"
    unfolding p by (rule codes_of_doc)
next
  show "split_lines [] = [[]]" by (rule split_lines_Nil)
next
  fix s show "split_lines (LF # s) = [] # split_lines s" by (rule split_lines_LF)
next
  fix s show "split_lines (CR # LF # s) = [] # split_lines s" by (rule split_lines_CRLF)
next
  fix c s assume "c \<noteq> LF \<and> (c \<noteq> CR \<or> s = [] \<or> hd s \<noteq> LF)"
  then show "split_lines (c # s) = (c # hd (split_lines s)) # tl (split_lines s)"
    using split_lines_other by blast
qed

theorem section_code_is_split_pieces_witness:
  "parseBlocks (''export of frame 1'' @ [LF] @ ''// ===== Component: Foo ====='' @ [CR, LF] @
                ''// ---- Root (html) ----'' @ [LF] @ ''<div>hi</div>'' @ [LF] @ [TAB] @ ''<p/>'' @ [LF]) =
     [\<lparr>name = ''Foo'',
       sections = [\<lparr>title = ''Root'', lang = ''html'',
                    code = ''<div>hi</div>'' @ [LF] @ [TAB] @ ''<p/>'' @ [LF] @ [] @ [LF]\<rparr>]\<rparr>]"
proof -
  let ?txt = "''export of frame 1'' @ [LF] @ ''// ===== Component: Foo ====='' @ [CR, LF] @
                ''// ---- Root (html) ----'' @ [LF] @ ''<div>hi</div>'' @ [LF] @ [TAB] @ ''<p/>'' @ [LF]"
  let ?junk = "[''export of frame 1'']"
  let ?doc = "[(''// ===== Component: Foo ====='', [],
                [(''// ---- Root (html) ----'', [''<div>hi</div>'', [TAB] @ ''<p/>'', []])])]"
  have 1: "list_all (\<lambda>l. \<not> is_comp_header l) ?junk"
    by (simp add: is_comp_header_def ev_defs)
  have 2: "list_all comp_ok ?doc"
    by (simp add: comp_ok_def sec_ok_def is_header_def is_comp_header_def is_sec_header_def ev_defs)
  have 3: "split_lines ?txt = ?junk @ concat (map comp_lines ?doc)"
    by (simp add: comp_lines_def sec_lines_def split_lines_def rx_split.simps)
  have 4: "map comp_of ?doc = [\<lparr>name = ''Foo'',
       sections = [\<lparr>title = ''Root'', lang = ''html'',
                    code = ''<div>hi</div>'' @ [LF] @ [TAB] @ ''<p/>'' @ [LF] @ [] @ [LF]\<rparr>]\<rparr>]"
    by (simp add: comp_of_def sec_of_def header_name_def header_title_def header_lang_def ev_defs)
  note r = section_code_is_split_pieces[of ?txt, THEN conjunct2, THEN conjunct1, rule_format,
             of ?junk ?doc, OF conjI[OF 1 conjI[OF 2 3]], THEN conjunct1]
  from r show ?thesis unfolding 4 .
qed

text \<open>
  C8 as stated fails: the code of a section that runs to the end of an input ending with a
  line break has one more \<open>\n\<close> than its raw lines; a raw line ended by \<open>\r\n\<close> is followed
  by \<open>\n\<close> alone in the code, and a last raw line without line break is followed by \<open>\n\<close>.
\<close>

theorem final_newline_counterexample:
  "parseBlocks (''// ===== Component: Foo ====='' @ [LF] @ ''// ---- Root (html) ----'' @ [LF] @
                ''<div>hi</div>'' @ [LF]) =
     [\<lparr>name = ''Foo'',
       sections = [\<lparr>title = ''Root'', lang = ''html'', code = ''<div>hi</div>'' @ [LF, LF]\<rparr>]\<rparr>] \<and>
   split_lines (''// ===== Component: Foo ====='' @ [LF] @ ''// ---- Root (html) ----'' @ [LF] @
                ''<div>hi</div>'' @ [LF]) =
     [''// ===== Component: Foo ====='', ''// ---- Root (html) ----'', ''<div>hi</div>'', []] \<and>
   parseBlocks (''// ===== Component: Foo ====='' @ [LF] @ ''// ---- Root (html) ----'' @ [LF] @
                ''x'' @ [CR, LF] @ ''y'') =
     [\<lparr>name = ''Foo'',
       sections = [\<lparr>title = ''Root'', lang = ''html'', code = ''x'' @ [LF] @ ''y'' @ [LF]\<rparr>]\<rparr>]"
  by (simp add: ev_defs)

section \<open>Exit codes\<close>












end
